theory Spec2Isabelle
  imports Complex_Main "HOL-Library.Multiset" "HOL-Library.Sublist"
begin

section \<open>JavaScript strings and the two dependency patterns\<close>

text \<open>
  A JavaScript string is a sequence of UTF-16 code units; a code unit is modelled by its
  numeric value. \<open>js\<close> writes an ASCII literal as such a sequence.
\<close>

type_synonym jsstring = "nat list"

definition js :: "string \<Rightarrow> jsstring" where
  "js s = map of_char s"

text \<open>The character classes \<open>\d\<close> and \<open>\s\<close> of ECMAScript regular expressions.\<close>

definition is_digit :: "nat \<Rightarrow> bool" where
  "is_digit c \<longleftrightarrow> 48 \<le> c \<and> c \<le> 57"

definition is_space :: "nat \<Rightarrow> bool" where
  "is_space c \<longleftrightarrow>
     c = 9 \<or> c = 10 \<or> c = 11 \<or> c = 12 \<or> c = 13 \<or> c = 32 \<or> c = 160 \<or> c = 5760 \<or>
     (8192 \<le> c \<and> c \<le> 8202) \<or> c = 8232 \<or> c = 8233 \<or> c = 8239 \<or> c = 8287 \<or>
     c = 12288 \<or> c = 65279"

text \<open>
  Canonicalisation under the \<open>i\<close> flag (without \<open>u\<close>): a code unit is compared by its
  upper-case form, and a non-ASCII code unit never canonicalises to an ASCII one. For the
  ASCII pattern characters used here only the letters \<open>a\<close>..\<open>z\<close> are folded.
\<close>

definition to_upper :: "nat \<Rightarrow> nat" where
  "to_upper c = (if 97 \<le> c \<and> c \<le> 122 then c - 32 else c)"

fun match_lit_ci :: "jsstring \<Rightarrow> jsstring \<Rightarrow> jsstring option" where
  "match_lit_ci [] s = Some s"
| "match_lit_ci (p # ps) [] = None"
| "match_lit_ci (p # ps) (c # cs) =
     (if to_upper c = to_upper p then match_lit_ci ps cs else None)"

text \<open>\<open>(\d+)\<close>: the longest non-empty run of digits; returns the capture and the rest.\<close>

definition match_digits :: "jsstring \<Rightarrow> (jsstring \<times> jsstring) option" where
  "match_digits s =
     (if takeWhile is_digit s = [] then None
      else Some (takeWhile is_digit s, dropWhile is_digit s))"

text \<open>\<open>/Relates to #(\d+)/i\<close> and \<open>/depends:\s*#(\d+)/i\<close>, tried at the start of \<open>s\<close>.\<close>

definition relates_at :: "jsstring \<Rightarrow> (jsstring \<times> jsstring) option" where
  "relates_at s =
     (case match_lit_ci (js ''Relates to #'') s of
        None \<Rightarrow> None
      | Some r \<Rightarrow> match_digits r)"

definition depends_at :: "jsstring \<Rightarrow> (jsstring \<times> jsstring) option" where
  "depends_at s =
     (case match_lit_ci (js ''depends:'') s of
        None \<Rightarrow> None
      | Some r \<Rightarrow>
          (case match_lit_ci (js ''#'') (dropWhile is_space r) of
             None \<Rightarrow> None
           | Some r' \<Rightarrow> match_digits r'))"

text \<open>
  A regular expression is tried at position 0, 1, 2, ... until it matches: the result is
  the capture of the leftmost match and the input after that match.
\<close>

fun regex_exec ::
  "(jsstring \<Rightarrow> (jsstring \<times> jsstring) option) \<Rightarrow> jsstring \<Rightarrow> (jsstring \<times> jsstring) option"
where
  "regex_exec m [] = m []"
| "regex_exec m (c # cs) =
     (case m (c # cs) of Some r \<Rightarrow> Some r | None \<Rightarrow> regex_exec m cs)"

lemma match_lit_ci_length:
  "match_lit_ci ps s = Some r \<Longrightarrow> length r + length ps = length s"
  by (induction ps s rule: match_lit_ci.induct) (auto split: if_splits)

lemma match_digits_length:
  "match_digits s = Some (ds, r) \<Longrightarrow> length r < length s"
proof -
  assume a: "match_digits s = Some (ds, r)"
  then have "takeWhile is_digit s \<noteq> []" and "r = dropWhile is_digit s"
    by (auto simp: match_digits_def split: if_splits)
  moreover have "length (takeWhile is_digit s) + length (dropWhile is_digit s) = length s"
    by (metis length_append takeWhile_dropWhile_id)
  ultimately show ?thesis
    by (cases "takeWhile is_digit s") auto
qed

lemma depends_at_length:
  "depends_at s = Some (ds, r) \<Longrightarrow> length r < length s"
proof -
  assume a: "depends_at s = Some (ds, r)"
  then obtain r1 r2 where
    1: "match_lit_ci (js ''depends:'') s = Some r1" and
    2: "match_lit_ci (js ''#'') (dropWhile is_space r1) = Some r2" and
    3: "match_digits r2 = Some (ds, r)"
    by (auto simp: depends_at_def split: option.splits)
  have "length r < length r2" using 3 by (rule match_digits_length)
  also have "length r2 \<le> length (dropWhile is_space r1)"
    using match_lit_ci_length [OF 2] by simp
  also have "\<dots> \<le> length r1" by (rule length_dropWhile_le)
  also have "\<dots> \<le> length s" using match_lit_ci_length [OF 1] by simp
  finally show ?thesis .
qed

lemma regex_exec_depends_length:
  "regex_exec depends_at s = Some (ds, r) \<Longrightarrow> length r < length s"
proof (induction s)
  case Nil
  then show ?case by (auto dest: depends_at_length)
next
  case (Cons c cs)
  show ?case
  proof (cases "depends_at (c # cs)")
    case None
    with Cons show ?thesis by fastforce
  next
    case (Some a)
    with Cons.prems show ?thesis by (auto dest: depends_at_length)
  qed
qed

text \<open>
  \<open>matchAll\<close> with the \<open>g\<close> flag: every next search starts where the previous match
  ended.
\<close>

function matchAll_depends :: "jsstring \<Rightarrow> jsstring list" where
  "matchAll_depends s =
     (case regex_exec depends_at s of
        None \<Rightarrow> []
      | Some (ds, r) \<Rightarrow> ds # matchAll_depends r)"
  by pat_completeness auto
termination
  by (relation "measure length") (auto dest: regex_exec_depends_length)

declare matchAll_depends.simps [simp del]

text \<open>
  A parsed reference is a JavaScript number, a double. \<open>parseInt\<close> of a run of digits
  returns a non-negative double with an integer value, or \<open>Infinity\<close>.
\<close>

datatype jsnumber = Finite nat | Infinity

text \<open>
  The double nearest to a non-negative integer, a tie going to the even significand:
  every integer below \<open>2^53\<close> is a double; a larger one keeps its 53 leading bits, rounded;
  from \<open>2^1024\<close> on the result is \<open>Infinity\<close>.
\<close>

fun bit_length :: "nat \<Rightarrow> nat" where
  "bit_length n = (if n = 0 then 0 else Suc (bit_length (n div 2)))"

declare bit_length.simps [simp del]

definition nearest_double :: "nat \<Rightarrow> jsnumber" where
  "nearest_double n =
     (if n < 2 ^ 53 then Finite n
      else
        let e = bit_length n - 53;
            q = n div 2 ^ e;
            r = n mod 2 ^ e;
            half = 2 ^ (e - 1);
            q' = (if half < r \<or> (r = half \<and> odd q) then q + 1 else q)
        in if 2 ^ 1024 \<le> q' * 2 ^ e then Infinity else Finite (q' * 2 ^ e))"

text \<open>
  \<open>parseInt(digits, 10)\<close> on a run of decimal digits: the integer that the digits denote,
  and the double nearest to it (the engine of Node rounds correctly whatever the number
  of digits).
\<close>

definition digits_value :: "jsstring \<Rightarrow> nat" where
  "digits_value ds = foldl (\<lambda>a c. 10 * a + (c - 48)) 0 ds"

definition parseInt :: "jsstring \<Rightarrow> jsnumber" where
  "parseInt ds = nearest_double (digits_value ds)"

text \<open>
  \<open>[...new Set(deps)]\<close>: a \<open>Set\<close> iterates in insertion order, so of equal numbers the
  first occurrence stays.
\<close>

fun dedupe :: "jsnumber list \<Rightarrow> jsnumber list \<Rightarrow> jsnumber list" where
  "dedupe seen [] = rev seen"
| "dedupe seen (x # xs) = (if x \<in> set seen then dedupe seen xs else dedupe (x # seen) xs)"

definition parseDependencies :: "jsstring \<Rightarrow> jsnumber list" where
  "parseDependencies issueBody =
     (let deps0 = (case regex_exec relates_at issueBody of
                     None \<Rightarrow> []
                   | Some (ds, r) \<Rightarrow> [parseInt ds]);
          deps = deps0 @ map parseInt (matchAll_depends issueBody)
      in dedupe [] deps)"


subsection \<open>Properties of the parser\<close>

lemmas regex_eval = js_def relates_at_def depends_at_def match_digits_def is_digit_def
  is_space_def to_upper_def parseInt_def digits_value_def nearest_double_def
  matchAll_depends.simps parseDependencies_def

text \<open>Roundings: a tie goes to the even significand, and \<open>2^1024\<close> is out of range.\<close>

lemma nearest_double_examples:
  "nearest_double 9007199254740993 = Finite 9007199254740992"
  "nearest_double 9007199254740995 = Finite 9007199254740996"
  "nearest_double (10 ^ 23) = Finite 99999999999999991611392"
  "nearest_double (2 ^ 1024) = Infinity"
  by (simp_all add: nearest_double_def bit_length.simps)

lemma dedupe_set: "set (dedupe seen xs) = set seen \<union> set xs"
  by (induction xs arbitrary: seen) auto

lemma dedupe_distinct: "distinct seen \<Longrightarrow> distinct (dedupe seen xs)"
  by (induction xs arbitrary: seen) auto

lemma matchAll_depends_Nil_iff: "matchAll_depends s = [] \<longleftrightarrow> regex_exec depends_at s = None"
  by (subst matchAll_depends.simps) (auto split: option.splits)

text \<open>The digit runs that \<open>parseDependencies\<close> captures, in the order it pushes them.\<close>

definition captured_runs :: "jsstring \<Rightarrow> jsstring list" where
  "captured_runs issueBody =
     (case regex_exec relates_at issueBody of None \<Rightarrow> [] | Some (ds, r) \<Rightarrow> [ds]) @
     matchAll_depends issueBody"

lemma parseDependencies_captured:
  "parseDependencies issueBody = dedupe [] (map parseInt (captured_runs issueBody))"
  by (simp add: parseDependencies_def captured_runs_def split: option.splits)

subsection \<open>Occurrences of the patterns\<close>

text \<open>
  What the spec calls an occurrence, said without a scan: at offset \<open>i\<close> the input reads
  the literal, in any case, then for \<open>depends:\<close> any white space and \<open>#\<close>, then the digits
  \<open>ds\<close>, and no digit follows them.
\<close>

definition ci_equal :: "jsstring \<Rightarrow> jsstring \<Rightarrow> bool" where
  "ci_equal a b \<longleftrightarrow> map to_upper a = map to_upper b"

definition digit_run :: "jsstring \<Rightarrow> jsstring \<Rightarrow> bool" where
  "digit_run ds rest \<longleftrightarrow>
     ds \<noteq> [] \<and> (\<forall>c\<in>set ds. is_digit c) \<and> (rest = [] \<or> \<not> is_digit (hd rest))"

definition relates_occurs :: "jsstring \<Rightarrow> nat \<Rightarrow> jsstring \<Rightarrow> bool" where
  "relates_occurs s i ds \<longleftrightarrow>
     (\<exists>lit rest. drop i s = lit @ ds @ rest \<and> ci_equal lit (js ''Relates to #'') \<and>
        digit_run ds rest)"

definition depends_occurs :: "jsstring \<Rightarrow> nat \<Rightarrow> jsstring \<Rightarrow> bool" where
  "depends_occurs s i ds \<longleftrightarrow>
     (\<exists>lit ws rest. drop i s = lit @ ws @ [35] @ ds @ rest \<and> ci_equal lit (js ''depends:'') \<and>
        (\<forall>c\<in>set ws. is_space c) \<and> digit_run ds rest)"

lemma match_lit_ci_iff:
  "match_lit_ci ps s = Some r \<longleftrightarrow> (\<exists>lit. s = lit @ r \<and> ci_equal lit ps)"
proof (induction ps s rule: match_lit_ci.induct)
  case (1 s)
  then show ?case by (auto simp: ci_equal_def)
next
  case (2 p ps)
  then show ?case by (auto simp: ci_equal_def)
next
  case (3 p ps c cs)
  show ?case
  proof
    assume a: "match_lit_ci (p # ps) (c # cs) = Some r"
    then have u: "to_upper c = to_upper p" and m: "match_lit_ci ps cs = Some r"
      by (auto split: if_splits)
    with 3 obtain lit where "cs = lit @ r" "ci_equal lit ps" by auto
    with u have "c # cs = (c # lit) @ r \<and> ci_equal (c # lit) (p # ps)"
      by (simp add: ci_equal_def)
    then show "\<exists>lit. c # cs = lit @ r \<and> ci_equal lit (p # ps)" by blast
  next
    assume "\<exists>lit. c # cs = lit @ r \<and> ci_equal lit (p # ps)"
    then obtain lit where l: "c # cs = lit @ r" "ci_equal lit (p # ps)" by blast
    then obtain lit' where lit: "lit = c # lit'"
      by (cases lit) (auto simp: ci_equal_def)
    with l have u: "to_upper c = to_upper p" and "cs = lit' @ r" "ci_equal lit' ps"
      by (auto simp: ci_equal_def)
    with 3 have "match_lit_ci ps cs = Some r" by auto
    with u show "match_lit_ci (p # ps) (c # cs) = Some r" by simp
  qed
qed

lemma match_digits_iff:
  "match_digits s = Some (ds, r) \<longleftrightarrow> s = ds @ r \<and> digit_run ds r"
proof
  assume "match_digits s = Some (ds, r)"
  then have ne: "takeWhile is_digit s \<noteq> []" and ds: "ds = takeWhile is_digit s"
    and r: "r = dropWhile is_digit s"
    by (auto simp: match_digits_def split: if_splits)
  have "s = ds @ r" by (simp add: ds r)
  moreover have "\<forall>c\<in>set ds. is_digit c" unfolding ds by (auto dest: set_takeWhileD)
  moreover have "r = [] \<or> \<not> is_digit (hd r)" unfolding r
    by (cases "dropWhile is_digit s = []") (simp_all add: hd_dropWhile)
  ultimately show "s = ds @ r \<and> digit_run ds r" using ne ds by (simp add: digit_run_def)
next
  assume a: "s = ds @ r \<and> digit_run ds r"
  then have all: "\<forall>c\<in>set ds. is_digit c" and ne: "ds \<noteq> []"
    and r: "r = [] \<or> \<not> is_digit (hd r)"
    by (auto simp: digit_run_def)
  have "takeWhile is_digit (ds @ r) = ds \<and> dropWhile is_digit (ds @ r) = r"
  proof (cases r)
    case Nil
    with all show ?thesis by simp
  next
    case (Cons c cs)
    with r have "\<not> is_digit c" by simp
    with all Cons show ?thesis by simp
  qed
  with a ne show "match_digits s = Some (ds, r)" by (simp add: match_digits_def)
qed

lemma relates_at_iff:
  "relates_at t = Some (ds, r) \<longleftrightarrow>
     (\<exists>lit. t = lit @ ds @ r \<and> ci_equal lit (js ''Relates to #'') \<and> digit_run ds r)"
proof -
  have "relates_at t = Some (ds, r) \<longleftrightarrow>
        (\<exists>r1. match_lit_ci (js ''Relates to #'') t = Some r1 \<and> match_digits r1 = Some (ds, r))"
    by (auto simp: relates_at_def split: option.splits)
  also have "\<dots> \<longleftrightarrow> (\<exists>r1 lit. t = lit @ r1 \<and> ci_equal lit (js ''Relates to #'') \<and>
                          r1 = ds @ r \<and> digit_run ds r)"
    by (simp only: match_lit_ci_iff match_digits_iff) blast
  also have "\<dots> \<longleftrightarrow> (\<exists>lit. t = lit @ ds @ r \<and> ci_equal lit (js ''Relates to #'') \<and> digit_run ds r)"
    by blast
  finally show ?thesis .
qed

lemma to_upper_hash: "to_upper c = to_upper 35 \<longleftrightarrow> c = 35"
  by (auto simp: to_upper_def)

lemma not_space_hash: "\<not> is_space 35"
  by (simp add: is_space_def)

lemma hash_after_spaces_iff:
  "match_lit_ci (js ''#'') (dropWhile is_space r1) = Some r2 \<longleftrightarrow>
     (\<exists>ws. r1 = ws @ [35] @ r2 \<and> (\<forall>c\<in>set ws. is_space c))"
proof
  assume "match_lit_ci (js ''#'') (dropWhile is_space r1) = Some r2"
  then obtain lit where l: "dropWhile is_space r1 = lit @ r2" "ci_equal lit (js ''#'')"
    by (auto simp: match_lit_ci_iff)
  from l(2) obtain c where "lit = [c]" "to_upper c = to_upper 35"
    by (cases lit) (auto simp: ci_equal_def js_def)
  then have lit: "lit = [35]" by (simp add: to_upper_hash)
  have "r1 = takeWhile is_space r1 @ dropWhile is_space r1" by simp
  then have "r1 = takeWhile is_space r1 @ [35] @ r2" using l(1) lit by simp
  moreover have "\<forall>c\<in>set (takeWhile is_space r1). is_space c" by (auto dest: set_takeWhileD)
  ultimately show "\<exists>ws. r1 = ws @ [35] @ r2 \<and> (\<forall>c\<in>set ws. is_space c)" by blast
next
  assume "\<exists>ws. r1 = ws @ [35] @ r2 \<and> (\<forall>c\<in>set ws. is_space c)"
  then obtain ws where ws: "r1 = ws @ [35] @ r2" "\<forall>c\<in>set ws. is_space c" by blast
  then have "dropWhile is_space r1 = 35 # r2"
    using not_space_hash by simp
  then show "match_lit_ci (js ''#'') (dropWhile is_space r1) = Some r2"
    by (simp add: js_def)
qed

lemma depends_at_iff:
  "depends_at t = Some (ds, r) \<longleftrightarrow>
     (\<exists>lit ws. t = lit @ ws @ [35] @ ds @ r \<and> ci_equal lit (js ''depends:'') \<and>
        (\<forall>c\<in>set ws. is_space c) \<and> digit_run ds r)"
proof -
  have "depends_at t = Some (ds, r) \<longleftrightarrow>
        (\<exists>r1 r2. match_lit_ci (js ''depends:'') t = Some r1 \<and>
           match_lit_ci (js ''#'') (dropWhile is_space r1) = Some r2 \<and>
           match_digits r2 = Some (ds, r))"
    by (auto simp: depends_at_def split: option.splits)
  also have "\<dots> \<longleftrightarrow> (\<exists>r1 r2 lit ws. t = lit @ r1 \<and> ci_equal lit (js ''depends:'') \<and>
                 r1 = ws @ [35] @ r2 \<and> (\<forall>c\<in>set ws. is_space c) \<and> r2 = ds @ r \<and> digit_run ds r)"
    by (simp only: match_lit_ci_iff [of "js ''depends:''"] hash_after_spaces_iff match_digits_iff)
      blast
  also have "\<dots> \<longleftrightarrow> (\<exists>lit ws. t = lit @ ws @ [35] @ ds @ r \<and> ci_equal lit (js ''depends:'') \<and>
        (\<forall>c\<in>set ws. is_space c) \<and> digit_run ds r)"
    by blast
  finally show ?thesis .
qed

lemma relates_occurs_iff: "relates_occurs s i ds \<longleftrightarrow> (\<exists>r. relates_at (drop i s) = Some (ds, r))"
  by (auto simp: relates_occurs_def relates_at_iff)

lemma depends_occurs_iff: "depends_occurs s i ds \<longleftrightarrow> (\<exists>r. depends_at (drop i s) = Some (ds, r))"
  by (auto simp: depends_occurs_def depends_at_iff)

text \<open>The scan returns the match at the least offset at which the pattern matches.\<close>

lemma regex_exec_first:
  assumes "m (drop i s) = Some x" and "\<forall>j<i. m (drop j s) = None"
  shows "regex_exec m s = Some x"
  using assms
proof (induction i arbitrary: s)
  case 0
  then show ?case by (cases s) simp_all
next
  case (Suc i)
  from Suc.prems(2) have none: "m (drop 0 s) = None" by blast
  show ?case
  proof (cases s)
    case Nil
    with Suc.prems(1) none show ?thesis by simp
  next
    case (Cons c cs)
    from Suc.prems(1) Cons have a: "m (drop i cs) = Some x" by simp
    have b: "\<forall>j<i. m (drop j cs) = None"
    proof (intro allI impI)
      fix j assume "j < i"
      then have "Suc j < Suc i" by simp
      then have "m (drop (Suc j) s) = None" using Suc.prems(2) by blast
      then show "m (drop j cs) = None" using Cons by simp
    qed
    from a b have "regex_exec m cs = Some x" by (rule Suc.IH)
    with none Cons show ?thesis by simp
  qed
qed

lemma regex_exec_SomeD:
  assumes "regex_exec m s = Some x"
  shows "\<exists>i\<le>length s. m (drop i s) = Some x \<and> (\<forall>j<i. m (drop j s) = None)"
  using assms
proof (induction s)
  case Nil
  then have "m (drop 0 []) = Some x" by simp
  then show ?case by simp
next
  case (Cons c cs)
  show ?case
  proof (cases "m (c # cs)")
    case (Some y)
    with Cons.prems have "m (drop 0 (c # cs)) = Some x" by simp
    then have "0 \<le> length (c # cs) \<and> m (drop 0 (c # cs)) = Some x \<and>
               (\<forall>j<0. m (drop j (c # cs)) = None)" by simp
    then show ?thesis by (rule exI)
  next
    case None
    with Cons.prems have "regex_exec m cs = Some x" by simp
    then obtain i where i: "i \<le> length cs" "m (drop i cs) = Some x"
      "\<forall>j<i. m (drop j cs) = None" using Cons.IH by blast
    have "\<forall>j<Suc i. m (drop j (c # cs)) = None"
    proof (intro allI impI)
      fix j assume j: "j < Suc i"
      show "m (drop j (c # cs)) = None"
      proof (cases j)
        case 0
        with None show ?thesis by simp
      next
        case (Suc k)
        with j have "k < i" by simp
        with i(3) have "m (drop k cs) = None" by blast
        with Suc show ?thesis by simp
      qed
    qed
    with i(1,2) have "Suc i \<le> length (c # cs) \<and> m (drop (Suc i) (c # cs)) = Some x \<and>
               (\<forall>j<Suc i. m (drop j (c # cs)) = None)" by simp
    then show ?thesis by (rule exI)
  qed
qed

lemma regex_exec_Some_iff:
  "regex_exec m s = Some x \<longleftrightarrow>
     (\<exists>i. m (drop i s) = Some x \<and> (\<forall>j<i. m (drop j s) = None))"
proof
  assume "regex_exec m s = Some x"
  from regex_exec_SomeD [OF this] show "\<exists>i. m (drop i s) = Some x \<and> (\<forall>j<i. m (drop j s) = None)"
    by blast
next
  assume "\<exists>i. m (drop i s) = Some x \<and> (\<forall>j<i. m (drop j s) = None)"
  then obtain i where "m (drop i s) = Some x" "\<forall>j<i. m (drop j s) = None" by blast
  then show "regex_exec m s = Some x" by (rule regex_exec_first)
qed

lemma regex_exec_None_iff:
  "regex_exec m s = None \<longleftrightarrow> (\<forall>i. m (drop i s) = None)"
proof
  assume n: "regex_exec m s = None"
  show "\<forall>i. m (drop i s) = None"
  proof (rule ccontr)
    assume "\<not> (\<forall>i. m (drop i s) = None)"
    then have ex: "\<exists>i. m (drop i s) \<noteq> None" by simp
    define i where "i = (LEAST i. m (drop i s) \<noteq> None)"
    from ex have i: "m (drop i s) \<noteq> None" unfolding i_def by (rule LeastI_ex)
    from i obtain x where "m (drop i s) = Some x" by blast
    moreover have "\<forall>j<i. m (drop j s) = None"
    proof (intro allI impI)
      fix j assume "j < i"
      then have "\<not> m (drop j s) \<noteq> None" unfolding i_def by (rule not_less_Least)
      then show "m (drop j s) = None" by blast
    qed
    ultimately have "regex_exec m s = Some x" by (rule regex_exec_first)
    with n show False by simp
  qed
next
  assume a: "\<forall>i. m (drop i s) = None"
  show "regex_exec m s = None"
  proof (cases "regex_exec m s")
    case None
    then show ?thesis .
  next
    case (Some x)
    from regex_exec_SomeD [OF this] a show ?thesis by auto
  qed
qed

text \<open>
  A match of \<open>depends:\<close> does not overlap a later one: inside a match no other match starts.
  So the search that resumes at the end of each match meets every occurrence.
\<close>

lemma match_lit_ci_Cons:
  "match_lit_ci (p # ps) s = Some r \<longleftrightarrow>
     (\<exists>c cs. s = c # cs \<and> to_upper c = to_upper p \<and> match_lit_ci ps cs = Some r)"
  by (cases s) auto

lemma match_lit_ci_ConsE:
  assumes "match_lit_ci (p # ps) s = Some r"
  obtains c cs where "s = c # cs" "to_upper c = to_upper p" "match_lit_ci ps cs = Some r"
  using assms unfolding match_lit_ci_Cons by blast

lemma depends_at_literal:
  assumes "depends_at u = Some x"
  shows "\<exists>c0 c1 c2 c3 c4 c5 c6 c7 r1. u = c0 # c1 # c2 # c3 # c4 # c5 # c6 # c7 # r1 \<and>
           to_upper c0 = 68 \<and> to_upper c1 = 69 \<and> to_upper c2 = 80 \<and> to_upper c3 = 69 \<and>
           to_upper c4 = 78 \<and> to_upper c5 = 68 \<and> to_upper c6 = 83 \<and> to_upper c7 = 58"
proof -
  from assms obtain r1 where "match_lit_ci (js ''depends:'') u = Some r1"
    by (auto simp: depends_at_def split: option.splits)
  then have m: "match_lit_ci [100, 101, 112, 101, 110, 100, 115, 58] u = Some r1"
    by (simp add: js_def)
  from m obtain c0 u0 where e0: "u = c0 # u0" "to_upper c0 = to_upper 100"
    and m0: "match_lit_ci [101, 112, 101, 110, 100, 115, 58] u0 = Some r1"
    by (rule match_lit_ci_ConsE)
  from m0 obtain c1 u1 where e1: "u0 = c1 # u1" "to_upper c1 = to_upper 101"
    and m1: "match_lit_ci [112, 101, 110, 100, 115, 58] u1 = Some r1"
    by (rule match_lit_ci_ConsE)
  from m1 obtain c2 u2 where e2: "u1 = c2 # u2" "to_upper c2 = to_upper 112"
    and m2: "match_lit_ci [101, 110, 100, 115, 58] u2 = Some r1"
    by (rule match_lit_ci_ConsE)
  from m2 obtain c3 u3 where e3: "u2 = c3 # u3" "to_upper c3 = to_upper 101"
    and m3: "match_lit_ci [110, 100, 115, 58] u3 = Some r1"
    by (rule match_lit_ci_ConsE)
  from m3 obtain c4 u4 where e4: "u3 = c4 # u4" "to_upper c4 = to_upper 110"
    and m4: "match_lit_ci [100, 115, 58] u4 = Some r1"
    by (rule match_lit_ci_ConsE)
  from m4 obtain c5 u5 where e5: "u4 = c5 # u5" "to_upper c5 = to_upper 100"
    and m5: "match_lit_ci [115, 58] u5 = Some r1"
    by (rule match_lit_ci_ConsE)
  from m5 obtain c6 u6 where e6: "u5 = c6 # u6" "to_upper c6 = to_upper 115"
    and m6: "match_lit_ci [58] u6 = Some r1"
    by (rule match_lit_ci_ConsE)
  from m6 obtain c7 u7 where e7: "u6 = c7 # u7" "to_upper c7 = to_upper 58"
    and m7: "match_lit_ci [] u7 = Some r1"
    by (rule match_lit_ci_ConsE)
  from m7 have "u7 = r1" by simp
  have "u = c0 # c1 # c2 # c3 # c4 # c5 # c6 # c7 # r1"
    using e0(1) e1(1) e2(1) e3(1) e4(1) e5(1) e6(1) e7(1) \<open>u7 = r1\<close> by simp
  moreover have "to_upper c0 = 68" "to_upper c1 = 69" "to_upper c2 = 80" "to_upper c3 = 69"
    "to_upper c4 = 78" "to_upper c5 = 68" "to_upper c6 = 83" "to_upper c7 = 58"
    using e0(2) e1(2) e2(2) e3(2) e4(2) e5(2) e6(2) e7(2) by (simp_all add: to_upper_def)
  ultimately show ?thesis by blast
qed

lemma depends_at_head:
  assumes "depends_at u = Some x"
  shows "\<exists>c c' cs. u = c # c' # cs \<and> to_upper c = 68 \<and> to_upper c' = 69"
  using depends_at_literal [OF assms] by blast

lemma to_upper_not_D:
  assumes "is_space c \<or> c = 35 \<or> is_digit c"
  shows "to_upper c \<noteq> 68"
  using assms by (auto simp: is_space_def is_digit_def to_upper_def)

lemma depends_at_suffix:
  assumes "depends_at t = Some (ds, r)"
  shows "r = drop (length t - length r) t"
proof -
  from assms obtain lit ws where "t = lit @ ws @ [35] @ ds @ r"
    unfolding depends_at_iff by blast
  then have "t = (lit @ ws @ [35] @ ds) @ r" by simp
  then show ?thesis by (metis add_diff_cancel_right' append_eq_conv_conj length_append)
qed

lemma depends_at_no_overlap:
  assumes m: "depends_at t = Some (ds, r)" and q: "0 < q" "q < length t - length r"
  shows "depends_at (drop q t) = None"
proof (rule ccontr)
  assume "depends_at (drop q t) \<noteq> None"
  then obtain x where "depends_at (drop q t) = Some x" by blast
  from depends_at_head [OF this] obtain c c' cs where
    hd: "drop q t = c # c' # cs" "to_upper c = 68" "to_upper c' = 69" by blast
  from depends_at_literal [OF m] obtain c0 c1 c2 c3 c4 c5 c6 c7 r1 where
    t: "t = c0 # c1 # c2 # c3 # c4 # c5 # c6 # c7 # r1" and
    u: "to_upper c0 = 68" "to_upper c1 = 69" "to_upper c2 = 80" "to_upper c3 = 69"
       "to_upper c4 = 78" "to_upper c5 = 68" "to_upper c6 = 83" "to_upper c7 = 58"
    by blast
  from m obtain lit ws where
    t': "t = lit @ ws @ [35] @ ds @ r" and lit: "ci_equal lit (js ''depends:'')" and
    ws: "\<forall>c\<in>set ws. is_space c" and dr: "digit_run ds r"
    unfolding depends_at_iff by blast
  from lit have "length (map to_upper lit) = length (map to_upper (js ''depends:''))"
    unfolding ci_equal_def by (rule arg_cong)
  then have len: "length lit = 8" by (simp add: js_def)
  have "drop (length lit) t = ws @ [35] @ ds @ r" unfolding t' by simp
  moreover have "drop 8 t = r1" unfolding t by (simp add: eval_nat_numeral)
  ultimately have r1: "r1 = ws @ [35] @ ds @ r" using len by simp
  consider "q = 1" | "q = 2" | "q = 3" | "q = 4" | "q = 5" | "q = 6" | "q = 7" | "8 \<le> q"
    using q(1) by linarith
  then show False
  proof cases
    case 1 with hd t u show False by simp
  next
    case 2 with hd t u show False by (simp add: eval_nat_numeral)
  next
    case 3 with hd t u show False by (simp add: eval_nat_numeral)
  next
    case 4 with hd t u show False by (simp add: eval_nat_numeral)
  next
    case 5 with hd t u show False by (simp add: eval_nat_numeral)
  next
    case 6 with hd t u show False by (simp add: eval_nat_numeral)
  next
    case 7 with hd t u show False by (simp add: eval_nat_numeral)
  next
    case 8
    define k where "k = q - 8"
    define body where "body = ws @ [35] @ ds"
    have r1': "r1 = body @ r" by (simp add: r1 body_def)
    have "length t = 8 + (length body + length r)" unfolding t r1' by simp
    with q(2) 8 have kl: "k < length body" by (simp add: k_def)
    then have "k - length body = 0" by simp
    then have split: "drop k (body @ r) = drop k body @ r"
      by (simp only: drop_append drop0)
    have "drop q t = drop k r1" using 8 t by (simp add: k_def eval_nat_numeral drop_Cons')
    with split have d: "drop q t = drop k body @ r" by (simp only: r1')
    from kl have "drop k body \<noteq> []" by simp
    then obtain y ys where y: "drop k body = y # ys" by (cases "drop k body") auto
    then have "y \<in> set (drop k body)" by simp
    then have "y \<in> set body" by (rule in_set_dropD)
    then have "is_space y \<or> y = 35 \<or> is_digit y"
      using ws dr by (auto simp: digit_run_def body_def)
    then have "to_upper y \<noteq> 68" by (rule to_upper_not_D)
    moreover from d y hd have "c = y" by simp
    ultimately show False using hd(2) by simp
  qed
qed

lemma matchAll_depends_set:
  "set (matchAll_depends s) = {ds. \<exists>i. depends_occurs s i ds}"
proof (induction s rule: matchAll_depends.induct)
  case (1 s)
  show ?case
  proof (cases "regex_exec depends_at s")
    case None
    then have "\<forall>i. depends_at (drop i s) = None" by (simp add: regex_exec_None_iff)
    then have "{ds. \<exists>i. depends_occurs s i ds} = {}" by (simp add: depends_occurs_iff)
    moreover from None have "matchAll_depends s = []" by (simp add: matchAll_depends_Nil_iff)
    ultimately show ?thesis by simp
  next
    case (Some x)
    obtain ds r where x: "x = (ds, r)" by (cases x)
    from Some x have ex: "regex_exec depends_at s = Some (ds, r)" by simp
    then obtain i where i: "depends_at (drop i s) = Some (ds, r)"
      and first: "\<forall>j<i. depends_at (drop j s) = None"
      unfolding regex_exec_Some_iff by blast
    define n where "n = length (drop i s) - length r"
    have r: "r = drop (i + n) s"
      using depends_at_suffix [OF i] by (simp add: n_def add.commute)
    have IH: "set (matchAll_depends r) = {ds'. \<exists>p. depends_occurs r p ds'}"
      using "1.IH" [OF Some x [symmetric]] .
    have unfold: "matchAll_depends s = ds # matchAll_depends r"
      using ex by (subst matchAll_depends.simps) simp
    have "{ds'. \<exists>p. depends_occurs s p ds'} = insert ds {ds'. \<exists>p. depends_occurs r p ds'}"
    proof (intro set_eqI iffI)
      fix ds' assume "ds' \<in> {ds'. \<exists>p. depends_occurs s p ds'}"
      then obtain p r' where p: "depends_at (drop p s) = Some (ds', r')"
        by (auto simp: depends_occurs_iff)
      have ip: "i \<le> p"
      proof (rule ccontr)
        assume "\<not> i \<le> p"
        then have "depends_at (drop p s) = None" using first by simp
        with p show False by simp
      qed
      show "ds' \<in> insert ds {ds'. \<exists>p. depends_occurs r p ds'}"
      proof (cases "p = i")
        case True
        with p i show ?thesis by simp
      next
        case False
        with ip have pos: "0 < p - i" by simp
        have "\<not> p - i < n"
        proof
          assume "p - i < n"
          then have "depends_at (drop (p - i) (drop i s)) = None"
            using depends_at_no_overlap [OF i pos] by (simp add: n_def)
          with ip p show False by simp
        qed
        then have "i + n \<le> p" using ip by simp
        then have "drop p s = drop (p - (i + n)) r" unfolding r by simp
        with p have "depends_occurs r (p - (i + n)) ds'" by (auto simp: depends_occurs_iff)
        then show ?thesis by blast
      qed
    next
      fix ds' assume "ds' \<in> insert ds {ds'. \<exists>p. depends_occurs r p ds'}"
      then consider "ds' = ds" | p where "depends_occurs r p ds'" by blast
      then show "ds' \<in> {ds'. \<exists>p. depends_occurs s p ds'}"
      proof cases
        case 1
        with i have "depends_occurs s i ds'" by (auto simp: depends_occurs_iff)
        then show ?thesis by blast
      next
        case 2
        then have "depends_occurs s (p + (i + n)) ds'"
          unfolding depends_occurs_iff r by (simp add: add.commute)
        then show ?thesis by blast
      qed
    qed
    with IH unfold show ?thesis by simp
  qed
qed

lemma relates_none_iff:
  "relates_at t = None \<longleftrightarrow> (\<forall>ds r. relates_at t \<noteq> Some (ds, r))"
  by (cases "relates_at t") auto

text \<open>
  The digit runs that the claim speaks of: that of the first occurrence of
  \<open>Relates to #N\<close>, and those of all occurrences of \<open>depends: #N\<close>.
\<close>

definition references :: "jsstring \<Rightarrow> jsstring set" where
  "references s =
     {ds. \<exists>i. relates_occurs s i ds \<and> (\<forall>j<i. \<forall>ds'. \<not> relates_occurs s j ds')} \<union>
     {ds. \<exists>i. depends_occurs s i ds}"

lemma first_relates_set:
  "set (case regex_exec relates_at s of None \<Rightarrow> [] | Some (ds, r) \<Rightarrow> [ds]) =
     {ds. \<exists>i. relates_occurs s i ds \<and> (\<forall>j<i. \<forall>ds'. \<not> relates_occurs s j ds')}"
proof (cases "regex_exec relates_at s")
  case None
  then have "\<forall>i. relates_at (drop i s) = None" by (simp add: regex_exec_None_iff)
  then have "\<forall>i ds. \<not> relates_occurs s i ds" by (simp add: relates_occurs_iff)
  with None show ?thesis by simp
next
  case (Some x)
  obtain ds r where x: "x = (ds, r)" by (cases x)
  from Some x obtain i where i: "relates_at (drop i s) = Some (ds, r)"
    and first: "\<forall>j<i. relates_at (drop j s) = None"
    unfolding regex_exec_Some_iff by blast
  have "{ds. \<exists>i. relates_occurs s i ds \<and> (\<forall>j<i. \<forall>ds'. \<not> relates_occurs s j ds')} = {ds}"
  proof (intro set_eqI iffI)
    fix ds' assume "ds' \<in> {ds. \<exists>i. relates_occurs s i ds \<and> (\<forall>j<i. \<forall>ds'. \<not> relates_occurs s j ds')}"
    then obtain p r' where p: "relates_at (drop p s) = Some (ds', r')"
      and pf: "\<forall>j<p. relates_at (drop j s) = None"
      unfolding relates_occurs_iff relates_none_iff by blast
    have "p = i"
    proof (rule ccontr)
      assume "p \<noteq> i"
      then consider "p < i" | "i < p" by linarith
      then show False
      proof cases
        case 1 with first p show False by simp
      next
        case 2 with pf i show False by simp
      qed
    qed
    with p i show "ds' \<in> {ds}" by simp
  next
    fix ds' assume "ds' \<in> {ds}"
    then have "ds' = ds" by simp
    with i first have "relates_occurs s i ds' \<and> (\<forall>j<i. \<forall>ds'. \<not> relates_occurs s j ds')"
      by (auto simp: relates_occurs_iff)
    then show "ds' \<in> {ds. \<exists>i. relates_occurs s i ds \<and> (\<forall>j<i. \<forall>ds'. \<not> relates_occurs s j ds')}"
      by blast
  qed
  moreover have "set (case regex_exec relates_at s of None \<Rightarrow> [] | Some (ds, r) \<Rightarrow> [ds]) = {ds}"
    using Some x by simp
  ultimately show ?thesis by (rule ssubst)
qed

lemma captured_runs_references: "set (captured_runs s) = references s"
  by (simp only: captured_runs_def set_append first_relates_set matchAll_depends_set
      references_def)

lemma parseDependencies_set:
  "set (parseDependencies s) = (\<lambda>ds. nearest_double (digits_value ds)) ` references s"
proof -
  have "set (parseDependencies s) = parseInt ` set (captured_runs s)"
    by (simp add: parseDependencies_captured dedupe_set)
  also have "\<dots> = (\<lambda>ds. nearest_double (digits_value ds)) ` references s"
    unfolding captured_runs_references by (rule image_cong) (simp_all add: parseInt_def)
  finally show ?thesis .
qed

lemma nearest_double_exact: "n < 2 ^ 53 \<Longrightarrow> nearest_double n = Finite n"
  by (simp add: nearest_double_def)

lemma no_references_iff:
  "references s = {} \<longleftrightarrow> (\<forall>i ds. \<not> relates_occurs s i ds \<and> \<not> depends_occurs s i ds)"
proof
  assume e: "references s = {}"
  then have d: "\<forall>i ds. \<not> depends_occurs s i ds" by (auto simp: references_def)
  from e have "set (case regex_exec relates_at s of None \<Rightarrow> [] | Some (ds, r) \<Rightarrow> [ds]) = {}"
    unfolding first_relates_set by (auto simp: references_def)
  then have "regex_exec relates_at s = None" by (cases "regex_exec relates_at s") auto
  then have "\<forall>i. relates_at (drop i s) = None" by (simp add: regex_exec_None_iff)
  then have "\<forall>i ds. \<not> relates_occurs s i ds" by (simp add: relates_occurs_iff)
  with d show "\<forall>i ds. \<not> relates_occurs s i ds \<and> \<not> depends_occurs s i ds" by simp
next
  assume "\<forall>i ds. \<not> relates_occurs s i ds \<and> \<not> depends_occurs s i ds"
  then show "references s = {}" by (simp add: references_def)
qed

lemmas parser_eval = regex_eval captured_runs_def bit_length.simps

text \<open>
  Claim C4 (amended). For every input, \<open>parseDependencies\<close> returns a duplicate-free list.
  When the numbers of the first occurrence of \<open>Relates to #N\<close> and of all occurrences of
  \<open>depends: #N\<close>, both read without regard to case, are below \<open>2^53\<close>, the members of the
  list are these numbers; in general they are the doubles nearest to these numbers. The
  list is empty when neither pattern occurs, and the two equal lines \<open>depends: #3\<close> give
  the single reference 3.
\<close>

theorem parseDependencies_spec:
  "distinct (parseDependencies issueBody) \<and>
   ((\<forall>ds\<in>references issueBody. digits_value ds < 2 ^ 53) \<longrightarrow>
      set (parseDependencies issueBody) =
        (\<lambda>ds. Finite (digits_value ds)) ` references issueBody) \<and>
   set (parseDependencies issueBody) =
     (\<lambda>ds. nearest_double (digits_value ds)) ` references issueBody \<and>
   ((\<forall>i ds. \<not> relates_occurs issueBody i ds \<and> \<not> depends_occurs issueBody i ds) \<longrightarrow>
      parseDependencies issueBody = []) \<and>
   parseDependencies (js ''depends: #3\<newline>depends: #3'') = [Finite 3]"
proof (intro conjI impI)
  show "distinct (parseDependencies issueBody)"
    by (simp add: parseDependencies_def dedupe_distinct)
  show general: "set (parseDependencies issueBody) =
     (\<lambda>ds. nearest_double (digits_value ds)) ` references issueBody"
    by (rule parseDependencies_set)
  show "parseDependencies (js ''depends: #3\<newline>depends: #3'') = [Finite 3]"
    by (simp add: parser_eval)
  {
    assume "\<forall>ds\<in>references issueBody. digits_value ds < 2 ^ 53"
    then have "(\<lambda>ds. nearest_double (digits_value ds)) ` references issueBody =
               (\<lambda>ds. Finite (digits_value ds)) ` references issueBody"
      by (intro image_cong refl) (simp add: nearest_double_exact)
    with general show "set (parseDependencies issueBody) =
        (\<lambda>ds. Finite (digits_value ds)) ` references issueBody" by simp
  }
  assume "\<forall>i ds. \<not> relates_occurs issueBody i ds \<and> \<not> depends_occurs issueBody i ds"
  then have "references issueBody = {}" by (simp add: no_references_iff)
  with general show "parseDependencies issueBody = []" by simp
qed

definition body_two_patterns :: jsstring where
  "body_two_patterns = js ''Relates to #3\<newline>DEPENDS:  #12\<newline>depends:#3''"

theorem parseDependencies_spec_witness:
  "references body_two_patterns = {js ''3'', js ''12''} \<and>
   digits_value (js ''3'') = 3 \<and> digits_value (js ''12'') = 12 \<and>
   set (parseDependencies body_two_patterns) = {Finite 3, Finite 12} \<and>
   (\<forall>i ds. \<not> relates_occurs (js ''No dependency here'') i ds \<and>
            \<not> depends_occurs (js ''No dependency here'') i ds) \<and>
   parseDependencies (js ''No dependency here'') = []"
proof -
  have "captured_runs body_two_patterns = [js ''3'', js ''12'', js ''3'']"
    by (simp add: body_two_patterns_def parser_eval)
  then have refs: "references body_two_patterns = {js ''3'', js ''12''}"
    unfolding captured_runs_references [symmetric] by auto
  have v: "digits_value (js ''3'') = 3" "digits_value (js ''12'') = 12"
    by (simp_all add: digits_value_def js_def)
  then have "\<forall>ds\<in>references body_two_patterns. digits_value ds < 2 ^ 53"
    unfolding refs by simp
  with parseDependencies_spec [of body_two_patterns]
  have "set (parseDependencies body_two_patterns) =
          (\<lambda>ds. Finite (digits_value ds)) ` references body_two_patterns" by blast
  then have s: "set (parseDependencies body_two_patterns) = {Finite 3, Finite 12}"
    unfolding refs using v by simp
  have "captured_runs (js ''No dependency here'') = []"
    by (simp add: parser_eval)
  then have "references (js ''No dependency here'') = {}"
    unfolding captured_runs_references [symmetric] by simp
  then have none: "\<forall>i ds. \<not> relates_occurs (js ''No dependency here'') i ds \<and>
            \<not> depends_occurs (js ''No dependency here'') i ds"
    by (rule iffD1 [OF no_references_iff])
  with parseDependencies_spec [of "js ''No dependency here''"]
  have e: "parseDependencies (js ''No dependency here'') = []" by blast
  show ?thesis
    by (rule conjI [OF refs conjI [OF v(1) conjI [OF v(2) conjI [OF s conjI [OF none e]]]]])
qed

text \<open>
  The claim as it is written fails for a number that is not a double: the reference
  \<open>#9007199254740993\<close> is returned as \<open>9007199254740992\<close>, and next to a reference to that
  number the two collapse into one.
\<close>

theorem parseDependencies_spec_counterexample:
  "depends_occurs (js ''depends: #9007199254740993'') 0 (js ''9007199254740993'') \<and>
   digits_value (js ''9007199254740993'') = 9007199254740993 \<and>
   parseDependencies (js ''depends: #9007199254740993'') = [Finite 9007199254740992] \<and>
   parseDependencies (js ''depends: #9007199254740992 depends: #9007199254740993'') =
     [Finite 9007199254740992]"
proof (intro conjI)
  show "depends_occurs (js ''depends: #9007199254740993'') 0 (js ''9007199254740993'')"
    unfolding depends_occurs_iff by (simp add: parser_eval)
  show "digits_value (js ''9007199254740993'') = 9007199254740993"
    by (simp add: digits_value_def js_def)
  show "parseDependencies (js ''depends: #9007199254740993'') = [Finite 9007199254740992]"
    by (simp add: parser_eval)
  show "parseDependencies (js ''depends: #9007199254740992 depends: #9007199254740993'') =
     [Finite 9007199254740992]"
    by (simp add: parser_eval)
qed


section \<open>The DAG builder\<close>

record Issue =
  number :: nat
  title :: jsstring
  body :: jsstring
  labels :: "jsstring list"
  state :: jsstring

record DAGNode =
  node_id :: jsstring
  number :: nat
  title :: jsstring
  dependencies :: "jsstring list"
  level :: nat

text \<open>
  The template literal \<open>`issue-${issue.number}`\<close>: the prefix and the decimal digits of
  the number. The number of an issue is the integer that the GitHub API returns, which
  lies below \<open>2^53\<close>, where a number is printed digit by digit.
\<close>

fun decimal :: "nat \<Rightarrow> jsstring" where
  "decimal n = (if n < 10 then [48 + n] else decimal (n div 10) @ [48 + n mod 10])"

declare decimal.simps [simp del]

definition issue_id :: "nat \<Rightarrow> jsstring" where
  "issue_id n = js ''issue-'' @ decimal n"

text \<open>
  The template literal \<open>`issue-${d}`\<close> on a parsed reference prints any double that
  \<open>parseInt\<close> returns, as \<open>Number::toString\<close> does: an integer below \<open>2^53\<close> digit by
  digit; a larger double as the decimal with the fewest significant digits that rounds
  to it, the nearest one if there are several, and of two equally near ones that with
  the even last digit, in exponent notation from \<open>10^21\<close> on; and \<open>Infinity\<close> by its name.

  \<open>shortest_from d m\<close> looks for that decimal among the multiples of \<open>10^m\<close>,
  \<open>10^(m-1)\<close>, ..., \<open>1\<close>: of the multiples of one power only the two around \<open>d\<close> can be
  the nearest that round to \<open>d\<close>.
\<close>

fun shortest_from :: "nat \<Rightarrow> nat \<Rightarrow> nat" where
  "shortest_from d m =
     (if m = 0 then d
      else
        let p = 10 ^ m;
            lo = (d div p) * p;
            hi = lo + p;
            ok_lo = (nearest_double lo = Finite d);
            ok_hi = (nearest_double hi = Finite d)
        in if ok_lo \<and> ok_hi
           then (if d - lo < hi - d then lo
                 else if hi - d < d - lo then hi
                 else if even (d div p) then lo else hi)
           else if ok_lo then lo
           else if ok_hi then hi
           else shortest_from d (m - 1))"

declare shortest_from.simps [simp del]

text \<open>
  Exponent notation: the significant digits, a point after the first of them when there
  are more, and the exponent, one less than the number of digits.
\<close>

definition exponent_form :: "nat \<Rightarrow> jsstring" where
  "exponent_form c =
     (let digits = decimal c;
          s = rev (dropWhile (\<lambda>x. x = 48) (rev digits))
      in [hd s] @ (if 1 < length s then 46 # tl s else []) @ js ''e+'' @
         decimal (length digits - 1))"

definition Number_toString :: "jsnumber \<Rightarrow> jsstring" where
  "Number_toString x =
     (case x of
        Infinity \<Rightarrow> js ''Infinity''
      | Finite d \<Rightarrow>
          if d < 2 ^ 53 then decimal d
          else
            let c = shortest_from d (length (decimal d))
            in if c < 10 ^ 21 then decimal c else exponent_form c)"

definition dependency_id :: "jsnumber \<Rightarrow> jsstring" where
  "dependency_id d = js ''issue-'' @ Number_toString d"

text \<open>The object that \<open>buildDAG\<close> pushes for one issue; its level is computed later.\<close>

definition mkNode :: "Issue \<Rightarrow> DAGNode" where
  "mkNode issue =
     \<lparr> node_id = issue_id (Issue.number issue),
       number = Issue.number issue,
       title = Issue.title issue,
       dependencies = map dependency_id (parseDependencies (body issue)),
       level = 0 \<rparr>"

text \<open>
  The node objects are shared by the array \<open>nodes\<close> and the map \<open>nodeMap\<close>, and
  \<open>calculateLevel\<close> writes their \<open>level\<close> field. An object is identified by its index in
  \<open>nodes\<close>; \<open>new Map(nodes.map((n) => [n.id, n]))\<close> keeps, for a key that occurs more than
  once, the last object.
\<close>

record calc_state =
  nodes :: "DAGNode list"
  visited :: "jsstring set"

definition nodeMap_get :: "DAGNode list \<Rightarrow> jsstring \<Rightarrow> nat option" where
  "nodeMap_get ns k =
     (case filter (\<lambda>i. node_id (ns ! i) = k) (rev [0..<length ns]) of
        [] \<Rightarrow> None
      | i # _ \<Rightarrow> Some i)"

text \<open>\<open>node?.level || 0\<close> for the object stored under a key.\<close>

definition stored_level :: "DAGNode list \<Rightarrow> jsstring \<Rightarrow> nat" where
  "stored_level ns k = (case nodeMap_get ns k of None \<Rightarrow> 0 | Some i \<Rightarrow> level (ns ! i))"

definition set_level :: "nat \<Rightarrow> nat \<Rightarrow> calc_state \<Rightarrow> calc_state" where
  "set_level i l s = s\<lparr>nodes := (nodes s)[i := (nodes s ! i)\<lparr>level := l\<rparr>]\<rparr>"

text \<open>
  \<open>calculateLevel\<close> recurses through \<open>node.dependencies.map(...)\<close>, one nested call for
  every link of a chain of dependencies. The first argument is the number of nested calls
  that the call stack of the engine has room for: \<open>None\<close> is the \<open>RangeError\<close> that the
  engine throws when a call does not fit, which nothing in \<open>buildDAG\<close> catches.
  \<open>calculateLevels\<close> is the \<open>map\<close> over the dependencies, left to right.
\<close>

fun calculateLevel :: "nat \<Rightarrow> jsstring \<Rightarrow> calc_state \<Rightarrow> (nat \<times> calc_state) option"
  and calculateLevels :: "nat \<Rightarrow> jsstring list \<Rightarrow> calc_state \<Rightarrow> (nat list \<times> calc_state) option"
where
  "calculateLevel 0 nodeId s = None"
| "calculateLevel (Suc fuel) nodeId s =
     (if nodeId \<in> visited s then Some (stored_level (nodes s) nodeId, s)
      else
        let s1 = s\<lparr>visited := insert nodeId (visited s)\<rparr> in
        case nodeMap_get (nodes s1) nodeId of
          None \<Rightarrow> Some (0, s1)
        | Some i \<Rightarrow>
            if dependencies (nodes s1 ! i) = [] then Some (0, set_level i 0 s1)
            else
              (case calculateLevels fuel (dependencies (nodes s1 ! i)) s1 of
                 None \<Rightarrow> None
               | Some (ls, s2) \<Rightarrow>
                   Some (Max (set ls) + 1, set_level i (Max (set ls) + 1) s2)))"
| "calculateLevels fuel [] s = Some ([], s)"
| "calculateLevels fuel (d # ds) s =
     (case calculateLevel fuel d s of
        None \<Rightarrow> None
      | Some (l, s1) \<Rightarrow>
          (case calculateLevels fuel ds s1 of
             None \<Rightarrow> None
           | Some (ls, s2) \<Rightarrow> Some (l # ls, s2)))"

text \<open>\<open>for (const node of nodes) calculateLevel(node.id)\<close>: the results are dropped.\<close>

fun levelLoop :: "nat \<Rightarrow> jsstring list \<Rightarrow> calc_state \<Rightarrow> calc_state option" where
  "levelLoop fuel [] s = Some s"
| "levelLoop fuel (k # ks) s =
     (case calculateLevel fuel k s of
        None \<Rightarrow> None
      | Some (l, s1) \<Rightarrow> levelLoop fuel ks s1)"

text \<open>
  \<open>buildDAG\<close>. The map \<open>issueMap\<close> of the source is filled and never read.
  \<open>Array.prototype.sort\<close> is stable, and the comparator \<open>a.level - b.level\<close> orders by
  level: \<open>sort_key level\<close>.
\<close>

definition buildDAG :: "nat \<Rightarrow> Issue list \<Rightarrow> DAGNode list option" where
  "buildDAG fuel issues =
     (let nodes0 = map mkNode issues in
      case levelLoop fuel (map node_id nodes0) \<lparr>nodes = nodes0, visited = {}\<rparr> of
        None \<Rightarrow> None
      | Some s \<Rightarrow> Some (sort_key level (nodes s)))"

text \<open>
  A call stack that is always enough: room for one call more than there are keys, the
  identifiers of the nodes and of their dependencies.
\<close>

definition depth_bound :: "Issue list \<Rightarrow> nat" where
  "depth_bound issues =
     Suc (length issues + sum_list (map (\<lambda>i. length (parseDependencies (body i))) issues))"


subsection \<open>Invariants of the level computation\<close>

definition erase_level :: "DAGNode \<Rightarrow> DAGNode" where
  "erase_level n = n\<lparr>level := 0\<rparr>"

definition deps_of :: "DAGNode list \<Rightarrow> jsstring \<Rightarrow> jsstring list" where
  "deps_of ns k = (case nodeMap_get ns k of None \<Rightarrow> [] | Some i \<Rightarrow> dependencies (ns ! i))"

lemma nodeMap_get_SomeD:
  assumes "nodeMap_get ns k = Some i"
  shows "i < length ns \<and> node_id (ns ! i) = k"
proof -
  from assms obtain js where "filter (\<lambda>i. node_id (ns ! i) = k) (rev [0..<length ns]) = i # js"
    by (auto simp: nodeMap_get_def split: list.splits)
  then have "i \<in> set (filter (\<lambda>i. node_id (ns ! i) = k) (rev [0..<length ns]))"
    by simp
  then show ?thesis by auto
qed

lemma nodeMap_get_None_iff:
  "nodeMap_get ns k = None \<longleftrightarrow> k \<notin> node_id ` set ns"
proof -
  have "nodeMap_get ns k = None \<longleftrightarrow> filter (\<lambda>i. node_id (ns ! i) = k) (rev [0..<length ns]) = []"
    by (auto simp: nodeMap_get_def split: list.splits)
  also have "\<dots> \<longleftrightarrow> (\<forall>i<length ns. node_id (ns ! i) \<noteq> k)"
    by (auto simp: filter_empty_conv)
  also have "\<dots> \<longleftrightarrow> k \<notin> node_id ` set ns"
    by (force simp: in_set_conv_nth)
  finally show ?thesis .
qed

lemma nodeMap_get_cong:
  assumes "map node_id ns' = map node_id ns"
  shows "nodeMap_get ns' k = nodeMap_get ns k"
proof -
  from assms have len: "length ns' = length ns" by (metis length_map)
  have "\<And>i. i < length ns \<Longrightarrow> node_id (ns' ! i) = node_id (ns ! i)"
    using assms len by (metis nth_map)
  then have "filter (\<lambda>i. node_id (ns' ! i) = k) (rev [0..<length ns]) =
    filter (\<lambda>i. node_id (ns ! i) = k) (rev [0..<length ns])"
    by (intro filter_cong) auto
  then show ?thesis by (simp add: nodeMap_get_def len)
qed

lemma nodeMap_get_distinct:
  assumes "distinct (map node_id ns)" "i < length ns"
  shows "nodeMap_get ns (node_id (ns ! i)) = Some i"
proof -
  have "nodeMap_get ns (node_id (ns ! i)) \<noteq> None"
    using assms(2) by (auto simp: nodeMap_get_None_iff)
  then obtain j where j: "nodeMap_get ns (node_id (ns ! i)) = Some j" by auto
  from nodeMap_get_SomeD [OF j] have "j < length ns" "node_id (ns ! j) = node_id (ns ! i)" by auto
  with assms have "j = i"
    by (metis distinct_conv_nth length_map nth_map) 
  with j show ?thesis by simp
qed


lemma erase_level_eqD:
  assumes "map erase_level ns' = map erase_level ns"
  shows "map node_id ns' = map node_id ns" and "map dependencies ns' = map dependencies ns"
    and "length ns' = length ns"
proof -
  have "map node_id (map erase_level ns') = map node_id (map erase_level ns)"
    using assms by simp
  then show "map node_id ns' = map node_id ns"
    by (simp add: erase_level_def o_def)
  have "map dependencies (map erase_level ns') = map dependencies (map erase_level ns)"
    using assms by simp
  then show "map dependencies ns' = map dependencies ns"
    by (simp add: erase_level_def o_def)
  show "length ns' = length ns" using assms by (metis length_map)
qed

lemma deps_of_cong:
  assumes "map erase_level ns' = map erase_level ns"
  shows "deps_of ns' k = deps_of ns k"
proof (cases "nodeMap_get ns k")
  case None
  then show ?thesis
    using nodeMap_get_cong [OF erase_level_eqD(1) [OF assms], of k] by (simp add: deps_of_def)
next
  case (Some i)
  then have i: "i < length ns" by (simp add: nodeMap_get_SomeD)
  have "dependencies (ns' ! i) = dependencies (ns ! i)"
    using erase_level_eqD(2,3) [OF assms] i by (metis nth_map)
  then show ?thesis
    using Some nodeMap_get_cong [OF erase_level_eqD(1) [OF assms], of k] by (simp add: deps_of_def)
qed

lemma erase_set_level:
  "map erase_level (nodes (set_level i l s)) = map erase_level (nodes s)"
proof (cases "i < length (nodes s)")
  case True
  have "erase_level ((nodes s ! i)\<lparr>level := l\<rparr>) = erase_level (nodes s ! i)"
    by (simp add: erase_level_def)
  then show ?thesis
    using True by (simp add: set_level_def map_update list_update_same_conv)
next
  case False
  then show ?thesis by (simp add: set_level_def list_update_beyond)
qed

lemma visited_set_level [simp]: "visited (set_level i l s) = visited s"
  by (simp add: set_level_def)

lemma stored_level_set_level:
  assumes "nodeMap_get (nodes s) k = Some i"
  shows "stored_level (nodes (set_level i l s)) e = (if e = k then l else stored_level (nodes s) e)"
proof -
  let ?ns' = "nodes (set_level i l s)"
  have g: "nodeMap_get ?ns' e = nodeMap_get (nodes s) e" for e
    by (rule nodeMap_get_cong) (rule erase_level_eqD(1) [OF erase_set_level])
  have i: "i < length (nodes s)" "node_id (nodes s ! i) = k"
    using nodeMap_get_SomeD [OF assms] by auto
  show ?thesis
  proof (cases "nodeMap_get (nodes s) e")
    case None
    then have "e \<noteq> k" using assms by auto
    then show ?thesis using None g [of e] by (simp add: stored_level_def)
  next
    case (Some j)
    have j: "j < length (nodes s)" "node_id (nodes s ! j) = e"
      using nodeMap_get_SomeD [OF Some] by auto
    show ?thesis
    proof (cases "e = k")
      case True
      then have "j = i" using Some assms by simp
      then show ?thesis using True Some g [of e] i by (simp add: stored_level_def set_level_def)
    next
      case False
      then have "j \<noteq> i" using i j by auto
      then show ?thesis using False Some g [of e] by (simp add: stored_level_def set_level_def)
    qed
  qed
qed

definition frame :: "calc_state \<Rightarrow> calc_state \<Rightarrow> bool" where
  "frame s s' \<longleftrightarrow>
     visited s \<subseteq> visited s' \<and> map erase_level (nodes s') = map erase_level (nodes s) \<and>
     (\<forall>e\<in>visited s. stored_level (nodes s') e = stored_level (nodes s) e)"

lemma frame_refl: "frame s s"
  by (simp add: frame_def)

lemma frame_trans: "frame s s1 \<Longrightarrow> frame s1 s2 \<Longrightarrow> frame s s2"
  unfolding frame_def by (metis subset_iff)

lemma frame_visit: "frame s (s\<lparr>visited := insert k (visited s)\<rparr>)"
  by (auto simp: frame_def)

lemma frame_set_level:
  assumes "frame s s2" "nodeMap_get (nodes s2) k = Some i" "k \<notin> visited s"
  shows "frame s (set_level i l s2)"
  using assms unfolding frame_def
  by (auto simp: erase_set_level stored_level_set_level)

lemma calc_frame:
  "calculateLevel f k s = Some (l, s') \<Longrightarrow> frame s s'"
  "calculateLevels f ds s = Some (ls, s') \<Longrightarrow> frame s s'"
proof (induction f k s and f ds s arbitrary: l s' and ls s' rule: calculateLevel_calculateLevels.induct)
  case (1 nodeId s)
  then show ?case by simp
next
  case (2 fuel nodeId s)
  show ?case
  proof (cases "nodeId \<in> visited s")
    case True
    with 2(2) show ?thesis by (simp add: frame_refl)
  next
    case nv: False
    let ?s1 = "s\<lparr>visited := insert nodeId (visited s)\<rparr>"
    show ?thesis
    proof (cases "nodeMap_get (nodes s) nodeId")
      case None
      with nv 2(2) show ?thesis by (auto simp: frame_visit)
    next
      case (Some i)
      show ?thesis
      proof (cases "dependencies (nodes s ! i) = []")
        case True
        with nv Some 2(2) have "s' = set_level i 0 ?s1" by simp
        moreover have "frame s (set_level i 0 ?s1)"
          by (rule frame_set_level [OF frame_visit _ nv]) (simp add: Some)
        ultimately show ?thesis by simp
      next
        case False
        with nv Some 2(2) obtain ls s2 where
          c: "calculateLevels fuel (dependencies (nodes s ! i)) ?s1 = Some (ls, s2)" and
          s': "s' = set_level i (Max (set ls) + 1) s2"
          by (auto split: option.splits)
        have "frame ?s1 s2"
          using 2(1) [of ?s1 i ls s2] nv Some False c by simp
        then have f2: "frame s s2" using frame_visit frame_trans by blast
        then have "nodeMap_get (nodes s2) nodeId = Some i"
          using Some nodeMap_get_cong [OF erase_level_eqD(1), of "nodes s2" "nodes s" nodeId]
          by (simp add: frame_def)
        with f2 show ?thesis unfolding s' using nv by (rule frame_set_level)
      qed
    qed
  qed
next
  case (3 fuel s)
  then show ?case by (simp add: frame_refl)
next
  case (4 fuel d ds s)
  from 4(3) obtain l s1 ls' where
    a: "calculateLevel fuel d s = Some (l, s1)" and
    b: "calculateLevels fuel ds s1 = Some (ls', s')"
    by (auto split: option.splits)
  have "frame s s1" using 4(1) a by simp
  moreover have "frame s1 s'" using 4(2) a b by simp
  ultimately show ?case by (rule frame_trans)
qed


definition keys :: "DAGNode list \<Rightarrow> jsstring set" where
  "keys ns = set (map node_id ns @ concat (map dependencies ns))"

lemma finite_keys [simp]: "finite (keys ns)"
  by (simp add: keys_def)

lemma card_keys: "card (keys ns) \<le> length ns + sum_list (map (\<lambda>n. length (dependencies n)) ns)"
proof -
  have "card (keys ns) \<le> length (map node_id ns @ concat (map dependencies ns))"
    unfolding keys_def by (rule card_length)
  then show ?thesis by (simp add: length_concat o_def)
qed

lemma keys_cong:
  assumes "map erase_level ns' = map erase_level ns"
  shows "keys ns' = keys ns"
  using erase_level_eqD(1,2) [OF assms] by (simp add: keys_def)

lemma nodeMap_get_deps_keys:
  assumes "nodeMap_get ns k = Some i"
  shows "k \<in> keys ns" and "set (dependencies (ns ! i)) \<subseteq> keys ns"
proof -
  have i: "i < length ns" "node_id (ns ! i) = k" using nodeMap_get_SomeD [OF assms] by auto
  then have "ns ! i \<in> set ns" by simp
  then show "set (dependencies (ns ! i)) \<subseteq> keys ns" by (auto simp: keys_def)
  show "k \<in> keys ns" using i \<open>ns ! i \<in> set ns\<close> by (auto simp: keys_def)
qed

lemma calc_total:
  "card (keys (nodes s) - visited s) < f \<Longrightarrow> \<exists>l s'. calculateLevel f k s = Some (l, s')"
  "card (keys (nodes s) - visited s) < f \<Longrightarrow> \<exists>ls s'. calculateLevels f ds s = Some (ls, s')"
proof (induction f k s and f ds s rule: calculateLevel_calculateLevels.induct)
  case (1 nodeId s)
  then show ?case by simp
next
  case (2 fuel nodeId s)
  show ?case
  proof (cases "nodeId \<in> visited s")
    case True
    then show ?thesis by simp
  next
    case nv: False
    let ?s1 = "s\<lparr>visited := insert nodeId (visited s)\<rparr>"
    show ?thesis
    proof (cases "nodeMap_get (nodes s) nodeId")
      case None
      with nv show ?thesis by simp
    next
      case (Some i)
      show ?thesis
      proof (cases "dependencies (nodes s ! i) = []")
        case True
        with nv Some show ?thesis by simp
      next
        case False
        have "nodeId \<in> keys (nodes s) - visited s"
          using nodeMap_get_deps_keys(1) [OF Some] nv by simp
        then have "card (keys (nodes s) - insert nodeId (visited s)) < card (keys (nodes s) - visited s)"
          by (metis Diff_insert card_Diff1_less finite_Diff finite_keys)
        with 2(2) have "card (keys (nodes ?s1) - visited ?s1) < fuel" by simp
        with 2(1) [of ?s1 i] nv Some False
        obtain ls s2 where "calculateLevels fuel (dependencies (nodes s ! i)) ?s1 = Some (ls, s2)"
          by auto
        with nv Some False show ?thesis by simp
      qed
    qed
  qed
next
  case (3 fuel s)
  then show ?case by simp
next
  case (4 fuel d ds s)
  from 4(1) [OF 4(3)] obtain l s1 where a: "calculateLevel fuel d s = Some (l, s1)" by auto
  have fr: "frame s s1" using a by (rule calc_frame)
  then have "keys (nodes s1) - visited s1 \<subseteq> keys (nodes s) - visited s"
    using keys_cong [of "nodes s1" "nodes s"] by (auto simp: frame_def)
  then have "card (keys (nodes s1) - visited s1) \<le> card (keys (nodes s) - visited s)"
    by (intro card_mono) auto
  with 4(3) have "card (keys (nodes s1) - visited s1) < fuel" by simp
  with 4(2) [OF a] obtain ls s2 where "calculateLevels fuel ds s1 = Some (ls, s2)" by auto
  with a show ?case by simp
qed

lemma levelLoop_calculateLevels:
  "levelLoop f ks s = map_option snd (calculateLevels f ks s)"
  by (induction ks arbitrary: s) (auto split: option.splits)





definition dep_graph :: "DAGNode list \<Rightarrow> (jsstring \<times> jsstring) set" where
  "dep_graph ns = {(k, d). d \<in> set (deps_of ns k)}"

definition level_ok :: "DAGNode list \<Rightarrow> jsstring \<Rightarrow> bool" where
  "level_ok ns k \<longleftrightarrow>
     stored_level ns k =
       (if deps_of ns k = [] then 0 else Max (stored_level ns ` set (deps_of ns k)) + 1)"

definition settled :: "calc_state \<Rightarrow> jsstring \<Rightarrow> bool" where
  "settled s k \<longleftrightarrow>
     k \<in> visited s \<and> set (deps_of (nodes s) k) \<subseteq> visited s \<and> level_ok (nodes s) k"

lemma dep_graph_cong:
  "map erase_level ns' = map erase_level ns \<Longrightarrow> dep_graph ns' = dep_graph ns"
  unfolding dep_graph_def using deps_of_cong [of ns' ns] by simp

lemma settled_frame:
  assumes "settled s e" "frame s s'"
  shows "settled s' e"
proof -
  from assms(2) have er: "map erase_level (nodes s') = map erase_level (nodes s)"
    and sub: "visited s \<subseteq> visited s'"
    and lv: "\<And>x. x \<in> visited s \<Longrightarrow> stored_level (nodes s') x = stored_level (nodes s) x"
    by (auto simp: frame_def)
  have d: "deps_of (nodes s') e = deps_of (nodes s) e" using er by (rule deps_of_cong)
  from assms(1) have e: "e \<in> visited s" and ds: "set (deps_of (nodes s) e) \<subseteq> visited s"
    and ok: "level_ok (nodes s) e"
    by (auto simp: settled_def)
  have im: "stored_level (nodes s') ` set (deps_of (nodes s) e) =
        stored_level (nodes s) ` set (deps_of (nodes s) e)"
  proof (rule image_cong [OF refl])
    fix x assume "x \<in> set (deps_of (nodes s) e)"
    with ds have "x \<in> visited s" by blast
    then show "stored_level (nodes s') x = stored_level (nodes s) x" by (rule lv)
  qed
  have "level_ok (nodes s') e"
    unfolding level_ok_def d im lv [OF e] using ok unfolding level_ok_def .
  moreover have "e \<in> visited s'" using e sub by blast
  moreover have "set (deps_of (nodes s') e) \<subseteq> visited s'" unfolding d using ds sub by blast
  ultimately show ?thesis unfolding settled_def by blast
qed

lemma settled_set_level:
  assumes "settled s e" "nodeMap_get (nodes s) k = Some i" "e \<noteq> k" "k \<notin> set (deps_of (nodes s) e)"
  shows "settled (set_level i l s) e"
proof -
  have d: "deps_of (nodes (set_level i l s)) e = deps_of (nodes s) e"
    by (rule deps_of_cong) (rule erase_set_level)
  have "stored_level (nodes (set_level i l s)) ` set (deps_of (nodes s) e) =
        stored_level (nodes s) ` set (deps_of (nodes s) e)"
    using assms(4) by (intro image_cong) (auto simp: stored_level_set_level [OF assms(2)])
  with assms(1,3) show ?thesis
    by (simp add: settled_def level_ok_def d stored_level_set_level [OF assms(2)])
qed

lemma deps_of_Some: "nodeMap_get ns k = Some i \<Longrightarrow> deps_of ns k = dependencies (ns ! i)"
  by (simp add: deps_of_def)

lemma deps_of_None: "nodeMap_get ns k = None \<Longrightarrow> deps_of ns k = []"
  by (simp add: deps_of_def)

lemma calc_settles:
  "calculateLevel f k s = Some (l, s') \<Longrightarrow> acyclic (dep_graph (nodes s)) \<Longrightarrow>
     k \<in> visited s' \<and> l = stored_level (nodes s') k \<and>
     visited s' \<subseteq> visited s \<union> (dep_graph (nodes s))\<^sup>* `` {k} \<and>
     (\<forall>e\<in>visited s' - visited s. settled s' e)"
  "calculateLevels f ds s = Some (ls, s') \<Longrightarrow> acyclic (dep_graph (nodes s)) \<Longrightarrow>
     set ds \<subseteq> visited s' \<and> ls = map (stored_level (nodes s')) ds \<and>
     visited s' \<subseteq> visited s \<union> (dep_graph (nodes s))\<^sup>* `` set ds \<and>
     (\<forall>e\<in>visited s' - visited s. settled s' e)"
proof (induction f k s and f ds s arbitrary: l s' and ls s' rule: calculateLevel_calculateLevels.induct)
  case (1 nodeId s)
  then show ?case by simp
next
  case (2 fuel nodeId s)
  let ?G = "dep_graph (nodes s)"
  note acyc = \<open>acyclic ?G\<close>
  show ?case
  proof (cases "nodeId \<in> visited s")
    case True
    with 2(2) show ?thesis by auto
  next
    case nv: False
    let ?s1 = "s\<lparr>visited := insert nodeId (visited s)\<rparr>"
    show ?thesis
    proof (cases "nodeMap_get (nodes s) nodeId")
      case None
      with nv 2(2) have s': "s' = ?s1" and l: "l = 0" by auto
      have "settled ?s1 nodeId"
        using None by (simp add: settled_def level_ok_def deps_of_None stored_level_def)
      then show ?thesis using None by (auto simp: s' l stored_level_def)
    next
      case (Some i)
      show ?thesis
      proof (cases "dependencies (nodes s ! i) = []")
        case True
        with nv Some 2(2) have s': "s' = set_level i 0 ?s1" and l: "l = 0" by auto
        have g: "nodeMap_get (nodes ?s1) nodeId = Some i" using Some by simp
        have d: "deps_of (nodes s') nodeId = []"
          unfolding s' using deps_of_cong [OF erase_set_level, of i 0 ?s1 nodeId] Some True
          by (simp add: deps_of_Some)
        have "settled s' nodeId"
          using d by (simp add: settled_def level_ok_def s' stored_level_set_level [OF g])
        then show ?thesis
          by (auto simp: s' l stored_level_set_level [OF g])
      next
        case False
        with nv Some 2(2) obtain ls s2 where
          c: "calculateLevels fuel (dependencies (nodes s ! i)) ?s1 = Some (ls, s2)" and
          s': "s' = set_level i (Max (set ls) + 1) s2" and l: "l = Max (set ls) + 1"
          by (auto split: option.splits)
        let ?ds = "dependencies (nodes s ! i)"
        have ih: "set ?ds \<subseteq> visited s2" "ls = map (stored_level (nodes s2)) ?ds"
          "visited s2 \<subseteq> insert nodeId (visited s) \<union> ?G\<^sup>* `` set ?ds"
          "\<And>e. e \<in> visited s2 \<Longrightarrow> e \<notin> insert nodeId (visited s) \<Longrightarrow> settled s2 e"
          using 2(1) [of ?s1 i ls s2] nv Some False c acyc by auto
        have fr: "frame ?s1 s2" using c by (rule calc_frame)
        then have er: "map erase_level (nodes s2) = map erase_level (nodes s)"
          by (simp add: frame_def)
        have g2: "nodeMap_get (nodes s2) nodeId = Some i"
          using Some nodeMap_get_cong [OF erase_level_eqD(1) [OF er], of nodeId] by simp
        have d2: "deps_of (nodes s2) e = deps_of (nodes s) e" for e
          using er by (rule deps_of_cong)
        have dk: "deps_of (nodes s) nodeId = ?ds" using Some by (rule deps_of_Some)
        have edge: "d \<in> set ?ds \<Longrightarrow> (nodeId, d) \<in> ?G" for d
          by (simp add: dep_graph_def dk)
        have notself: "nodeId \<notin> set ?ds"
        proof
          assume "nodeId \<in> set ?ds"
          then have "(nodeId, nodeId) \<in> ?G\<^sup>+" using edge by blast
          with acyc show False by (simp add: acyclic_def)
        qed
        have reach: "?G\<^sup>* `` set ?ds \<subseteq> ?G\<^sup>+ `` {nodeId}"
        proof
          fix e assume "e \<in> ?G\<^sup>* `` set ?ds"
          then obtain d where "d \<in> set ?ds" "(d, e) \<in> ?G\<^sup>*" by auto
          then have "(nodeId, e) \<in> ?G\<^sup>+" using edge [of d] by (simp add: rtrancl_into_trancl2)
          then show "e \<in> ?G\<^sup>+ `` {nodeId}" by simp
        qed
        define L where "L = Max (set ls) + 1"
        have s'L: "s' = set_level i L s2" and lL: "l = L" by (simp_all add: s' l L_def)
        have v': "visited s' = visited s2" by (simp add: s'L)
        have sl': "stored_level (nodes s') e = (if e = nodeId then L else stored_level (nodes s2) e)" for e
          unfolding s'L by (rule stored_level_set_level [OF g2])
        have d': "deps_of (nodes s') e = deps_of (nodes s) e" for e
          unfolding s'L using deps_of_cong [OF erase_set_level, of i L s2 e] d2 by simp
        have k_in: "nodeId \<in> visited s2" using fr by (auto simp: frame_def)
        have lev: "stored_level (nodes s') ` set ?ds = stored_level (nodes s2) ` set ?ds"
          using notself by (intro image_cong) (auto simp: sl')
        have "set ls = stored_level (nodes s2) ` set ?ds" using ih(2) by simp
        then have "level_ok (nodes s') nodeId"
          using False lev by (simp add: level_ok_def d' dk sl' L_def)
        then have "settled s' nodeId"
          using ih(1) k_in by (simp add: settled_def d' dk v')
        moreover have "settled s' e" if e: "e \<in> visited s2" "e \<notin> visited s" "e \<noteq> nodeId" for e
        proof -
          have st: "settled s2 e" using ih(4) e by simp
          from e ih(3) have "e \<in> ?G\<^sup>* `` set ?ds" by auto
          with reach have ke: "(nodeId, e) \<in> ?G\<^sup>+" by auto
          have "nodeId \<notin> set (deps_of (nodes s) e)"
          proof
            assume "nodeId \<in> set (deps_of (nodes s) e)"
            then have "(e, nodeId) \<in> ?G" by (simp add: dep_graph_def)
            with ke have "(nodeId, nodeId) \<in> ?G\<^sup>+" by (rule trancl_into_trancl)
            with acyc show False by (simp add: acyclic_def)
          qed
          then have "nodeId \<notin> set (deps_of (nodes s2) e)" by (simp add: d2)
          with st g2 e(3) show ?thesis unfolding s'L by (rule settled_set_level)
        qed
        moreover have "visited s' \<subseteq> visited s \<union> ?G\<^sup>* `` {nodeId}"
        proof -
          have "?G\<^sup>+ `` {nodeId} \<subseteq> ?G\<^sup>* `` {nodeId}" by auto
          with ih(3) reach show ?thesis unfolding v' by blast
        qed
        moreover have "nodeId \<in> visited s'" using k_in by (simp add: v')
        moreover have "l = stored_level (nodes s') nodeId" by (simp add: sl' lL)
        ultimately show ?thesis
          unfolding v' by blast
      qed
    qed
  qed
next
  case (3 fuel s)
  then show ?case by simp
next
  case (4 fuel d ds s)
  let ?G = "dep_graph (nodes s)"
  from 4(3) obtain l s1 ls' where
    a: "calculateLevel fuel d s = Some (l, s1)" and
    b: "calculateLevels fuel ds s1 = Some (ls', s')" and ls: "ls = l # ls'"
    by (auto split: option.splits)
  have f1: "frame s s1" using a by (rule calc_frame)
  have f2: "frame s1 s'" using b by (rule calc_frame)
  have G1: "dep_graph (nodes s1) = ?G"
    using f1 dep_graph_cong [of "nodes s1" "nodes s"] by (simp add: frame_def)
  have ac1: "acyclic (dep_graph (nodes s1))" unfolding G1 by (rule 4(4))
  note i1 = 4(1) [OF a 4(4)]
  note i2 = 4(2) [OF a refl b ac1, unfolded G1]
  have "d \<in> visited s'" using i1 f2 unfolding frame_def by blast
  moreover have "l = stored_level (nodes s') d" using i1 f2 unfolding frame_def by simp
  moreover have "visited s' \<subseteq> visited s \<union> ?G\<^sup>* `` set (d # ds)"
  proof
    fix e assume e: "e \<in> visited s'"
    show "e \<in> visited s \<union> ?G\<^sup>* `` set (d # ds)"
    proof (cases "e \<in> visited s1")
      case True
      with i1 have "e \<in> visited s \<union> ?G\<^sup>* `` {d}" by blast
      then show ?thesis by auto
    next
      case False
      with e i2 have "e \<in> ?G\<^sup>* `` set ds" by blast
      then show ?thesis by auto
    qed
  qed
  moreover have "\<forall>e\<in>visited s' - visited s. settled s' e"
  proof
    fix e assume e: "e \<in> visited s' - visited s"
    show "settled s' e"
    proof (cases "e \<in> visited s1")
      case True
      with e i1 have "settled s1 e" by blast
      then show ?thesis using f2 by (rule settled_frame)
    next
      case False
      with e i2 show ?thesis by blast
    qed
  qed
  moreover have "set ds \<subseteq> visited s'" using i2 by blast
  moreover have "ls' = map (stored_level (nodes s')) ds" using i2 by blast
  ultimately show ?case unfolding ls by simp
qed



lemma digits_value_snoc: "digits_value (ds @ [c]) = 10 * digits_value ds + (c - 48)"
  by (simp add: digits_value_def)

lemma digits_value_decimal: "digits_value (decimal n) = n"
proof (induction n rule: decimal.induct)
  case (1 n)
  show ?case
  proof (cases "n < 10")
    case True
    then show ?thesis by (simp add: decimal.simps [of n] digits_value_def)
  next
    case False
    then have "digits_value (decimal n) = 10 * digits_value (decimal (n div 10)) + n mod 10"
      by (simp add: decimal.simps [of n] digits_value_snoc)
    also have "\<dots> = n" using 1 [OF False] by simp
    finally show ?thesis .
  qed
qed

lemma issue_id_inj: "issue_id a = issue_id b \<Longrightarrow> a = b"
proof -
  assume "issue_id a = issue_id b"
  then have "decimal a = decimal b" by (simp add: issue_id_def)
  then have "digits_value (decimal a) = digits_value (decimal b)" by simp
  then show ?thesis by (simp add: digits_value_decimal)
qed

definition task_dependencies :: "Issue list \<Rightarrow> (jsstring \<times> jsstring) set" where
  "task_dependencies issues =
     (\<Union>i\<in>set issues.
        (\<lambda>d. (issue_id (Issue.number i), dependency_id d)) ` set (parseDependencies (body i)))"

lemma node_id_mkNode [simp]: "node_id (mkNode i) = issue_id (Issue.number i)"
  by (simp add: mkNode_def)

lemma dependencies_mkNode [simp]:
  "dependencies (mkNode i) = map dependency_id (parseDependencies (body i))"
  by (simp add: mkNode_def)

lemma erase_level_mkNode [simp]: "erase_level (mkNode i) = mkNode i"
  by (simp add: mkNode_def erase_level_def)

lemma dep_graph_mkNode: "dep_graph (map mkNode issues) \<subseteq> task_dependencies issues"
proof
  fix p assume "p \<in> dep_graph (map mkNode issues)"
  then obtain k d where p: "p = (k, d)" and d: "d \<in> set (deps_of (map mkNode issues) k)"
    by (auto simp: dep_graph_def)
  then obtain i where g: "nodeMap_get (map mkNode issues) k = Some i"
    by (cases "nodeMap_get (map mkNode issues) k") (auto simp: deps_of_def)
  from nodeMap_get_SomeD [OF g] have i: "i < length issues" "issue_id (Issue.number (issues ! i)) = k"
    by auto
  from d g i have "d \<in> dependency_id ` set (parseDependencies (body (issues ! i)))"
    by (simp add: deps_of_Some)
  moreover have "issues ! i \<in> set issues" using i by simp
  ultimately show "p \<in> task_dependencies issues"
    unfolding task_dependencies_def p using i(2) by blast
qed

lemma distinct_mkNode:
  assumes "distinct (map Issue.number issues)"
  shows "distinct (map node_id (map mkNode issues))"
proof -
  have "inj_on issue_id (set (map Issue.number issues))"
    by (rule inj_onI) (rule issue_id_inj)
  with assms have "distinct (map issue_id (map Issue.number issues))"
    by (simp only: distinct_map [of issue_id] simp_thms)
  then show ?thesis by (simp add: o_def)
qed

lemma depth_bound_keys: "card (keys (map mkNode issues)) < depth_bound issues"
proof -
  have "card (keys (map mkNode issues)) \<le>
        length (map mkNode issues) + sum_list (map (\<lambda>n. length (dependencies n)) (map mkNode issues))"
    by (rule card_keys)
  then show ?thesis by (simp add: depth_bound_def o_def)
qed

lemma levelLoop_total:
  assumes "card (keys (nodes s) - visited s) < f"
  shows "\<exists>s'. levelLoop f ks s = Some s'"
  using calc_total(2) [OF assms, of ks] by (auto simp: levelLoop_calculateLevels)


text \<open>The state in which \<open>buildDAG\<close> starts the level computation.\<close>

definition init_state :: "Issue list \<Rightarrow> calc_state" where
  "init_state issues = \<lparr>nodes = map mkNode issues, visited = {}\<rparr>"

lemma buildDAG_levelLoop:
  "buildDAG fuel issues =
     map_option (\<lambda>s. sort_key level (nodes s))
       (levelLoop fuel (map node_id (map mkNode issues)) (init_state issues))"
  by (simp add: buildDAG_def init_state_def Let_def split: option.splits)

lemma levelLoop_init_total:
  assumes "depth_bound issues \<le> fuel"
  shows "\<exists>s. levelLoop fuel (map node_id (map mkNode issues)) (init_state issues) = Some s"
proof (rule levelLoop_total)
  have "card (keys (nodes (init_state issues)) - visited (init_state issues)) =
        card (keys (map mkNode issues))"
    by (simp add: init_state_def)
  also have "\<dots> < depth_bound issues" by (rule depth_bound_keys)
  finally show "card (keys (nodes (init_state issues)) - visited (init_state issues)) < fuel"
    using assms by simp
qed

lemma levelLoop_init_frame:
  assumes "levelLoop fuel ks (init_state issues) = Some s"
  shows "map erase_level (nodes s) = map mkNode issues"
proof -
  from assms obtain ls where "calculateLevels fuel ks (init_state issues) = Some (ls, s)"
    by (auto simp: levelLoop_calculateLevels)
  then have "frame (init_state issues) s" by (rule calc_frame)
  then show ?thesis by (simp add: frame_def init_state_def)
qed


lemma levelLoop_init_levels:
  assumes run: "levelLoop fuel (map node_id (map mkNode issues)) (init_state issues) = Some s"
    and acyc: "acyclic (task_dependencies issues)"
    and dist: "distinct (map Issue.number issues)"
  shows "distinct (map node_id (nodes s))"
    and "\<forall>n\<in>set (nodes s). stored_level (nodes s) (node_id n) = level n"
    and "\<forall>n\<in>set (nodes s). level n =
           (if dependencies n = [] then 0
            else Max (stored_level (nodes s) ` set (dependencies n)) + 1)"
proof -
  let ?ks = "map node_id (map mkNode issues)"
  from run obtain ls where c: "calculateLevels fuel ?ks (init_state issues) = Some (ls, s)"
    by (auto simp: levelLoop_calculateLevels)
  have er: "map erase_level (nodes s) = map mkNode issues"
    using run by (rule levelLoop_init_frame)
  then have er': "map erase_level (nodes s) = map erase_level (map mkNode issues)"
    by (simp add: o_def)
  have ids: "map node_id (nodes s) = ?ks" using erase_level_eqD(1) [OF er'] .
  show d: "distinct (map node_id (nodes s))"
    unfolding ids using dist by (rule distinct_mkNode)
  have "acyclic (dep_graph (map mkNode issues))"
    using dep_graph_mkNode acyc by (rule acyclic_subset [rotated])
  then have "acyclic (dep_graph (nodes (init_state issues)))" by (simp add: init_state_def)
  from calc_settles(2) [OF c this]
  have vis: "set ?ks \<subseteq> visited s" and st: "\<And>e. e \<in> visited s \<Longrightarrow> settled s e"
    by (auto simp: init_state_def)
  have at: "nodeMap_get (nodes s) (node_id n) = Some i \<and> n = nodes s ! i \<and> i < length (nodes s)"
    if "n \<in> set (nodes s)" "n = nodes s ! i" "i < length (nodes s)" for n i
    using that nodeMap_get_distinct [OF d, of i] by simp
  show sl: "\<forall>n\<in>set (nodes s). stored_level (nodes s) (node_id n) = level n"
  proof
    fix n assume n: "n \<in> set (nodes s)"
    then obtain i where "n = nodes s ! i" "i < length (nodes s)" by (metis in_set_conv_nth)
    with at [OF n] show "stored_level (nodes s) (node_id n) = level n"
      by (simp add: stored_level_def)
  qed
  show "\<forall>n\<in>set (nodes s). level n =
           (if dependencies n = [] then 0
            else Max (stored_level (nodes s) ` set (dependencies n)) + 1)"
  proof
    fix n assume n: "n \<in> set (nodes s)"
    then obtain i where i: "n = nodes s ! i" "i < length (nodes s)" by (metis in_set_conv_nth)
    have g: "nodeMap_get (nodes s) (node_id n) = Some i" using at [OF n i] by blast
    have dn: "deps_of (nodes s) (node_id n) = dependencies n"
      using deps_of_Some [OF g] i by simp
    have "node_id n \<in> set (map node_id (nodes s))" using n by simp
    then have "node_id n \<in> visited s" using vis unfolding ids by blast
    then have "level_ok (nodes s) (node_id n)" using st by (simp add: settled_def)
    then show "level n =
           (if dependencies n = [] then 0
            else Max (stored_level (nodes s) ` set (dependencies n)) + 1)"
      unfolding level_ok_def dn using sl n by simp
  qed
qed

lemma buildDAG_run:
  assumes "depth_bound issues \<le> fuel"
  obtains s where
    "levelLoop fuel (map node_id (map mkNode issues)) (init_state issues) = Some s"
    "buildDAG fuel issues = Some (sort_key level (nodes s))"
    "map erase_level (nodes s) = map mkNode issues"
proof -
  from levelLoop_init_total [OF assms] obtain s where
    s: "levelLoop fuel (map node_id (map mkNode issues)) (init_state issues) = Some s" by auto
  moreover have "buildDAG fuel issues = Some (sort_key level (nodes s))"
    unfolding buildDAG_levelLoop s by simp
  moreover have "map erase_level (nodes s) = map mkNode issues"
    using s by (rule levelLoop_init_frame)
  ultimately show ?thesis by (rule that)
qed

subsection \<open>Example tasks\<close>

definition task_A :: Issue where
  "task_A = \<lparr>Issue.number = 3, title = js ''Task A'', body = js ''No dependency here'',
     labels = [], state = js ''open''\<rparr>"

definition task_B :: Issue where
  "task_B = \<lparr>Issue.number = 12, title = js ''Task B'', body = js ''Relates to #3'',
     labels = [], state = js ''open''\<rparr>"

definition task_C :: Issue where
  "task_C = \<lparr>Issue.number = 21, title = js ''Task C'', body = js ''depends: #22'',
     labels = [], state = js ''open''\<rparr>"

definition task_D :: Issue where
  "task_D = \<lparr>Issue.number = 22, title = js ''Task D'', body = js ''Depends:  #21'',
     labels = [], state = js ''open''\<rparr>"

definition task_G :: Issue where
  "task_G = \<lparr>Issue.number = 40, title = js ''Task G'', body = js ''depends: #12'',
     labels = [], state = js ''open''\<rparr>"

definition node_A :: DAGNode where
  "node_A = \<lparr>node_id = js ''issue-3'', number = 3, title = js ''Task A'',
     dependencies = [], level = 0\<rparr>"

definition node_G :: DAGNode where
  "node_G = \<lparr>node_id = js ''issue-40'', number = 40, title = js ''Task G'',
     dependencies = [js ''issue-12''], level = 0\<rparr>"

definition node_B :: DAGNode where
  "node_B = \<lparr>node_id = js ''issue-12'', number = 12, title = js ''Task B'',
     dependencies = [js ''issue-3''], level = 0\<rparr>"

definition node_C :: DAGNode where
  "node_C = \<lparr>node_id = js ''issue-21'', number = 21, title = js ''Task C'',
     dependencies = [js ''issue-22''], level = 0\<rparr>"

definition node_D :: DAGNode where
  "node_D = \<lparr>node_id = js ''issue-22'', number = 22, title = js ''Task D'',
     dependencies = [js ''issue-21''], level = 0\<rparr>"

text \<open>How references are printed: below \<open>2^53\<close>, above it, and from \<open>10^21\<close> on.\<close>

lemma Number_toString_examples:
  "Number_toString (Finite 12) = js ''12''"
  "Number_toString (Finite 9007199254740992) = js ''9007199254740992''"
  "Number_toString (Finite 1152921504606846976) = js ''1152921504606847000''"
  "Number_toString (Finite 99999999999999991611392) = js ''1e+23''"
  "Number_toString (Finite 1180591620717411303424) = js ''1.1805916207174113e+21''"
  "Number_toString Infinity = js ''Infinity''"
  by (simp_all add: Number_toString_def exponent_form_def shortest_from.simps
      nearest_double_def bit_length.simps decimal.simps js_def Let_def)

lemma parseDependencies_task_A: "parseDependencies (body task_A) = []"
  by (simp add: task_A_def regex_eval)

lemma parseDependencies_task_B: "parseDependencies (body task_B) = [Finite 3]"
  by (simp add: task_B_def regex_eval)

lemma parseDependencies_task_C: "parseDependencies (body task_C) = [Finite 22]"
  by (simp add: task_C_def regex_eval)

lemma parseDependencies_task_D: "parseDependencies (body task_D) = [Finite 21]"
  by (simp add: task_D_def regex_eval)

lemma parseDependencies_task_G: "parseDependencies (body task_G) = [Finite 12]"
  by (simp add: task_G_def regex_eval)

lemmas parseDependencies_tasks = parseDependencies_task_A parseDependencies_task_B
  parseDependencies_task_C parseDependencies_task_D parseDependencies_task_G

lemma issue_id_examples:
  "issue_id 3 = js ''issue-3''" "issue_id 12 = js ''issue-12''"
  "issue_id 21 = js ''issue-21''" "issue_id 22 = js ''issue-22''"
  "issue_id 40 = js ''issue-40''"
  "dependency_id (Finite 3) = js ''issue-3''" "dependency_id (Finite 12) = js ''issue-12''"
  "dependency_id (Finite 21) = js ''issue-21''" "dependency_id (Finite 22) = js ''issue-22''"
  by (simp_all add: issue_id_def dependency_id_def Number_toString_def decimal.simps js_def)

lemma mkNode_task_A: "mkNode task_A = node_A"
  by (simp add: mkNode_def parseDependencies_tasks) (simp add: task_A_def node_A_def issue_id_examples)

lemma mkNode_task_B: "mkNode task_B = node_B"
  by (simp add: mkNode_def parseDependencies_tasks) (simp add: task_B_def node_B_def issue_id_examples)

lemma mkNode_task_C: "mkNode task_C = node_C"
  by (simp add: mkNode_def parseDependencies_tasks) (simp add: task_C_def node_C_def issue_id_examples)

lemma mkNode_task_D: "mkNode task_D = node_D"
  by (simp add: mkNode_def parseDependencies_tasks) (simp add: task_D_def node_D_def issue_id_examples)

lemma mkNode_task_G: "mkNode task_G = node_G"
  by (simp add: mkNode_def parseDependencies_tasks) (simp add: task_G_def node_G_def issue_id_examples)

lemmas mkNode_tasks = mkNode_task_A mkNode_task_B mkNode_task_C mkNode_task_D mkNode_task_G

lemmas node_defs = node_A_def node_B_def node_C_def node_D_def node_G_def

lemmas buildDAG_eval = buildDAG_def mkNode_tasks node_defs js_def nodeMap_get_def
  stored_level_def set_level_def eval_nat_numeral

lemma acyclic_empty: "acyclic {}"
  by (simp add: acyclic_def)

lemma task_dependencies_Nil: "task_dependencies [] = {}"
  by (simp add: task_dependencies_def)

lemma task_dependencies_Cons:
  "task_dependencies (i # is) =
     (\<lambda>d. (issue_id (Issue.number i), dependency_id d)) ` set (parseDependencies (body i)) \<union>
     task_dependencies is"
  by (simp add: task_dependencies_def)

lemma number_tasks:
  "Issue.number task_A = 3" "Issue.number task_B = 12"
  "Issue.number task_C = 21" "Issue.number task_D = 22" "Issue.number task_G = 40"
  by (simp_all add: task_A_def task_B_def task_C_def task_D_def task_G_def)

lemmas task_dependencies_eval = task_dependencies_Nil task_dependencies_Cons
  parseDependencies_tasks number_tasks issue_id_examples

lemma buildDAG_BA: "buildDAG 4 [task_B, task_A] = Some [node_A, node_B\<lparr>level := 1\<rparr>]"
  by (simp add: buildDAG_eval)

lemma buildDAG_ABB:
  "buildDAG 6 [task_A, task_B, task_B] = Some [node_A, node_B, node_B\<lparr>level := 1\<rparr>]"
  by (simp add: buildDAG_eval)

lemma buildDAG_BBA:
  "buildDAG 6 [task_B, task_B, task_A] = Some [node_B, node_A, node_B\<lparr>level := 1\<rparr>]"
  by (simp add: buildDAG_eval)




lemma depth_bound_examples:
  "depth_bound [task_B, task_A] = 4" "depth_bound [task_C, task_D] = 5"
  "depth_bound [task_A, task_B, task_B] = 6" "depth_bound [task_B, task_B, task_A] = 6"
  by (simp_all add: depth_bound_def parseDependencies_tasks)

lemma acyclic_BA: "acyclic (task_dependencies [task_B, task_A])"
  by (simp add: task_dependencies_eval acyclic_empty js_def)

lemma acyclic_ABB: "acyclic (task_dependencies [task_A, task_B, task_B])"
  by (simp add: task_dependencies_eval acyclic_empty js_def)

lemma acyclic_BBA: "acyclic (task_dependencies [task_B, task_B, task_A])"
  by (simp add: task_dependencies_eval acyclic_empty js_def)




subsection \<open>Levels of an acyclic task collection\<close>

text \<open>
  The rule the levels are meant to obey at a node \<open>n\<close> of the returned list \<open>dag\<close>:
  level 0 without dependencies, and one more than the greatest level among the
  dependencies when there are some and all of them are nodes of the list.
\<close>

definition level_rule :: "DAGNode list \<Rightarrow> DAGNode \<Rightarrow> bool" where
  "level_rule dag n \<longleftrightarrow>
     (dependencies n = [] \<longrightarrow> level n = 0) \<and>
     (dependencies n \<noteq> [] \<and> set (dependencies n) \<subseteq> node_id ` set dag \<longrightarrow>
        level n = 1 + Max (level ` {m \<in> set dag. node_id m \<in> set (dependencies n)}))"

text \<open>The invariant of the data model: a node lies above each of its dependencies.\<close>

definition above_dependencies :: "DAGNode list \<Rightarrow> DAGNode \<Rightarrow> bool" where
  "above_dependencies dag n \<longleftrightarrow>
     (\<forall>d\<in>set dag. node_id d \<in> set (dependencies n) \<longrightarrow> level d < level n)"

text \<open>
  Claim C1 (amended). For every acyclic collection of input tasks with pairwise distinct
  issue numbers, \<open>buildDAG\<close> returns a list in which each node without dependencies has
  level 0 and each node whose dependencies are all nodes of the list has level
  \<open>1 + max\<close> of their levels.
\<close>

theorem buildDAG_levels:
  assumes "distinct (map Issue.number issues)"
    and "acyclic (task_dependencies issues)"
    and "depth_bound issues \<le> fuel"
  shows "\<exists>dag. buildDAG fuel issues = Some dag \<and> (\<forall>n\<in>set dag. level_rule dag n)"
proof -
  from assms(3) obtain s where
    run: "levelLoop fuel (map node_id (map mkNode issues)) (init_state issues) = Some s" and
    dag: "buildDAG fuel issues = Some (sort_key level (nodes s))"
    by (rule buildDAG_run)
  note lv = levelLoop_init_levels [OF run assms(2) assms(1)]
  let ?dag = "sort_key level (nodes s)"
  have "level_rule ?dag n" if n: "n \<in> set ?dag" for n
    unfolding level_rule_def
  proof (intro conjI impI)
    assume "dependencies n = []"
    then show "level n = 0" using lv(3) n by simp
  next
    assume a: "dependencies n \<noteq> [] \<and> set (dependencies n) \<subseteq> node_id ` set ?dag"
    have "stored_level (nodes s) ` set (dependencies n) =
          level ` {m \<in> set (nodes s). node_id m \<in> set (dependencies n)}"
    proof (intro set_eqI iffI)
      fix x assume "x \<in> stored_level (nodes s) ` set (dependencies n)"
      then obtain d where d: "d \<in> set (dependencies n)" "x = stored_level (nodes s) d" by auto
      with a obtain m where m: "m \<in> set (nodes s)" "node_id m = d" by auto
      then have "x = level m" using lv(2) d by auto
      moreover have "m \<in> {m \<in> set (nodes s). node_id m \<in> set (dependencies n)}"
        using m d by simp
      ultimately show "x \<in> level ` {m \<in> set (nodes s). node_id m \<in> set (dependencies n)}"
        by (rule image_eqI)
    next
      fix x assume "x \<in> level ` {m \<in> set (nodes s). node_id m \<in> set (dependencies n)}"
      then obtain m where m: "m \<in> set (nodes s)" "node_id m \<in> set (dependencies n)" "x = level m"
        by auto
      then have "x = stored_level (nodes s) (node_id m)" using lv(2) by simp
      then show "x \<in> stored_level (nodes s) ` set (dependencies n)"
        using m(2) by (rule image_eqI)
    qed
    then show "level n = 1 + Max (level ` {m \<in> set ?dag. node_id m \<in> set (dependencies n)})"
      using lv(3) n a by simp
  qed
  with dag show ?thesis by blast
qed

theorem buildDAG_levels_witness:
  "distinct (map Issue.number [task_B, task_A]) \<and>
   acyclic (task_dependencies [task_B, task_A]) \<and>
   depth_bound [task_B, task_A] \<le> 4 \<and>
   buildDAG 4 [task_B, task_A] = Some [node_A, node_B\<lparr>level := 1\<rparr>] \<and>
   level_rule [node_A, node_B\<lparr>level := 1\<rparr>] node_A \<and>
   level_rule [node_A, node_B\<lparr>level := 1\<rparr>] (node_B\<lparr>level := 1\<rparr>)"
proof -
  have d: "distinct (map Issue.number [task_B, task_A])" by (simp add: number_tasks)
  have db: "depth_bound [task_B, task_A] \<le> 4" by (simp add: depth_bound_examples)
  from buildDAG_levels [OF d acyclic_BA db]
  have "\<forall>n\<in>set [node_A, node_B\<lparr>level := 1\<rparr>]. level_rule [node_A, node_B\<lparr>level := 1\<rparr>] n"
    by (simp only: buildDAG_BA) simp
  then show ?thesis using d acyclic_BA db buildDAG_BA by simp
qed

text \<open>
  The claim as it is written, for every acyclic collection, fails when an issue number
  is supplied twice: \<open>nodeMap\<close> keeps the last object of the key only, the earlier one is
  never written and stays at level 0 beside its resolvable dependency.
\<close>

theorem buildDAG_levels_counterexample:
  "acyclic (task_dependencies [task_A, task_B, task_B]) \<and>
   depth_bound [task_A, task_B, task_B] \<le> 6 \<and>
   buildDAG 6 [task_A, task_B, task_B] = Some [node_A, node_B, node_B\<lparr>level := 1\<rparr>] \<and>
   node_B \<in> set [node_A, node_B, node_B\<lparr>level := 1\<rparr>] \<and>
   \<not> level_rule [node_A, node_B, node_B\<lparr>level := 1\<rparr>] node_B"
proof -
  have "\<not> level_rule [node_A, node_B, node_B\<lparr>level := 1\<rparr>] node_B"
    by (simp add: level_rule_def node_defs js_def)
  then show ?thesis
    using acyclic_ABB buildDAG_ABB by (simp add: depth_bound_examples)
qed

text \<open>
  Claim C2 (amended). For every acyclic input with pairwise distinct issue numbers, every
  node \<open>n\<close> of the returned list and every dependency \<open>d\<close> of \<open>n\<close> that is a node of the
  list satisfy \<open>level n > level d\<close>.
\<close>

theorem buildDAG_level_above_dependencies:
  assumes "distinct (map Issue.number issues)"
    and "acyclic (task_dependencies issues)"
    and "depth_bound issues \<le> fuel"
  shows "\<exists>dag. buildDAG fuel issues = Some dag \<and> (\<forall>n\<in>set dag. above_dependencies dag n)"
proof -
  from assms(3) obtain s where
    run: "levelLoop fuel (map node_id (map mkNode issues)) (init_state issues) = Some s" and
    dag: "buildDAG fuel issues = Some (sort_key level (nodes s))"
    by (rule buildDAG_run)
  note lv = levelLoop_init_levels [OF run assms(2) assms(1)]
  have "level d < level n"
    if n: "n \<in> set (nodes s)" and d: "d \<in> set (nodes s)" "node_id d \<in> set (dependencies n)" for n d
  proof -
    from d(2) have ne: "dependencies n \<noteq> []" by auto
    have "level d = stored_level (nodes s) (node_id d)" using lv(2) d(1) by simp
    also have "\<dots> \<le> Max (stored_level (nodes s) ` set (dependencies n))"
      using d(2) by (intro Max_ge) auto
    also have "\<dots> < level n" using lv(3) n ne by simp
    finally show ?thesis .
  qed
  with dag show ?thesis by (auto simp: above_dependencies_def)
qed

theorem buildDAG_level_above_dependencies_witness:
  "distinct (map Issue.number [task_B, task_A]) \<and>
   acyclic (task_dependencies [task_B, task_A]) \<and>
   depth_bound [task_B, task_A] \<le> 4 \<and>
   buildDAG 4 [task_B, task_A] = Some [node_A, node_B\<lparr>level := 1\<rparr>] \<and>
   above_dependencies [node_A, node_B\<lparr>level := 1\<rparr>] node_A \<and>
   above_dependencies [node_A, node_B\<lparr>level := 1\<rparr>] (node_B\<lparr>level := 1\<rparr>)"
proof -
  have d: "distinct (map Issue.number [task_B, task_A])" by (simp add: number_tasks)
  have db: "depth_bound [task_B, task_A] \<le> 4" by (simp add: depth_bound_examples)
  from buildDAG_level_above_dependencies [OF d acyclic_BA db]
  have "\<forall>n\<in>set [node_A, node_B\<lparr>level := 1\<rparr>]. above_dependencies [node_A, node_B\<lparr>level := 1\<rparr>] n"
    by (simp only: buildDAG_BA) simp
  then show ?thesis using d acyclic_BA db buildDAG_BA by simp
qed

text \<open>
  With an issue number supplied twice the invariant fails for the node that \<open>nodeMap\<close>
  does not hold: it stays at level 0, the level of its dependency.
\<close>

theorem buildDAG_level_above_dependencies_counterexample:
  "acyclic (task_dependencies [task_B, task_B, task_A]) \<and>
   depth_bound [task_B, task_B, task_A] \<le> 6 \<and>
   buildDAG 6 [task_B, task_B, task_A] = Some [node_B, node_A, node_B\<lparr>level := 1\<rparr>] \<and>
   node_B \<in> set [node_B, node_A, node_B\<lparr>level := 1\<rparr>] \<and>
   \<not> above_dependencies [node_B, node_A, node_B\<lparr>level := 1\<rparr>] node_B"
proof -
  have "\<not> above_dependencies [node_B, node_A, node_B\<lparr>level := 1\<rparr>] node_B"
    by (simp add: above_dependencies_def node_defs js_def)
  then show ?thesis
    using acyclic_BBA buildDAG_BBA by (simp add: depth_bound_examples)
qed

subsection \<open>Order of the returned list and totality\<close>




text \<open>
  Claim C3. The returned list is sorted by level, \<open>level[i] \<le> level[i+1]\<close> for all
  adjacent pairs, and the sort is stable: \<open>ns\<close> are the nodes in the order the tasks were
  supplied, and the nodes of any one level appear in the result in the order of \<open>ns\<close>.
\<close>

theorem buildDAG_sorted_stable:
  assumes "depth_bound issues \<le> fuel"
  shows "\<exists>dag ns. buildDAG fuel issues = Some dag \<and>
           map erase_level ns = map mkNode issues \<and>
           mset dag = mset ns \<and>
           sorted (map level dag) \<and>
           (\<forall>i. Suc i < length dag \<longrightarrow> level (dag ! i) \<le> level (dag ! Suc i)) \<and>
           (\<forall>k. filter (\<lambda>n. level n = k) dag = filter (\<lambda>n. level n = k) ns)"
proof -
  from assms obtain s where
    "levelLoop fuel (map node_id (map mkNode issues)) (init_state issues) = Some s" and
    dag: "buildDAG fuel issues = Some (sort_key level (nodes s))" and
    er: "map erase_level (nodes s) = map mkNode issues"
    by (rule buildDAG_run)
  let ?dag = "sort_key level (nodes s)"
  have so: "sorted (map level ?dag)" by (rule sorted_sort_key)
  have adj: "\<forall>i. Suc i < length ?dag \<longrightarrow> level (?dag ! i) \<le> level (?dag ! Suc i)"
    using so sorted_iff_nth_Suc [of "map level ?dag"] by simp
  have stable: "\<forall>k. filter (\<lambda>n. level n = k) ?dag = filter (\<lambda>n. level n = k) (nodes s)"
    by (simp add: sort_key_stable)
  have perm: "mset ?dag = mset (nodes s)" by simp
  show ?thesis
    by (rule exI [of _ ?dag], rule exI [of _ "nodes s"]) (intro conjI dag er perm so adj stable)
qed

theorem buildDAG_sorted_stable_witness:
  "depth_bound [task_B, task_A] \<le> 4 \<and>
   (\<exists>dag ns. buildDAG 4 [task_B, task_A] = Some dag \<and>
      map erase_level ns = map mkNode [task_B, task_A] \<and>
      mset dag = mset ns \<and>
      sorted (map level dag) \<and>
      (\<forall>i. Suc i < length dag \<longrightarrow> level (dag ! i) \<le> level (dag ! Suc i)) \<and>
      (\<forall>k. filter (\<lambda>n. level n = k) dag = filter (\<lambda>n. level n = k) ns))"
proof -
  have db: "depth_bound [task_B, task_A] \<le> 4" by (simp add: depth_bound_examples)
  from db buildDAG_sorted_stable [OF db] show ?thesis by (rule conjI)
qed



section \<open>The level scheduler\<close>

text \<open>
  A \<open>Map\<close> keeps its keys in insertion order; \<open>set\<close> on a present key replaces the value
  in place.
\<close>

fun map_set :: "'k \<Rightarrow> 'v \<Rightarrow> ('k \<times> 'v) list \<Rightarrow> ('k \<times> 'v) list" where
  "map_set k v [] = [(k, v)]"
| "map_set k v ((k', v') # m) = (if k = k' then (k, v) # m else (k', v') # map_set k v m)"

text \<open>\<open>levels.get(l) || []\<close>.\<close>

definition levels_get :: "(nat \<times> DAGNode list) list \<Rightarrow> nat \<Rightarrow> DAGNode list" where
  "levels_get levels l = (case map_of levels l of None \<Rightarrow> [] | Some ns \<Rightarrow> ns)"

text \<open>The grouping loop: every node is pushed onto the list of its level.\<close>

definition group_levels :: "DAGNode list \<Rightarrow> (nat \<times> DAGNode list) list" where
  "group_levels dag =
     foldl (\<lambda>levels node. map_set (level node) (levels_get levels (level node) @ [node]) levels)
       [] dag"

text \<open>
  The values of \<open>level\<close> that the loop \<open>for (level = 0; level <= maxLevel; level++)\<close>
  runs through. \<open>Math.max()\<close> of no keys is \<open>-Infinity\<close>: no iteration.
\<close>

definition level_range :: "(nat \<times> DAGNode list) list \<Rightarrow> nat list" where
  "level_range levels = (if levels = [] then [] else [0..<Suc (Max (set (map fst levels)))])"

text \<open>\<open>xs.slice(a, b)\<close> for integers \<open>a\<close> and \<open>b\<close>: a negative index counts from the end.\<close>

definition js_slice :: "'a list \<Rightarrow> int \<Rightarrow> int \<Rightarrow> 'a list" where
  "js_slice xs a b =
     (let n = int (length xs);
          from = (if a < 0 then max (n + a) 0 else min a n);
          to = (if b < 0 then max (n + b) 0 else min b n)
      in take (nat (to - from)) (drop (nat from) xs))"

text \<open>
  The batching loop \<open>for (let i = 0; i < levelNodes.length; i += concurrency)\<close>. The
  concurrency is an integer, the result of \<open>parseInt\<close> on a flag that is a number (the
  value \<open>NaN\<close> of any other flag is not modelled); the loop does not end when it is not
  positive, which is the value \<open>None\<close>.
\<close>

partial_function (option) batches_loop ::
  "int \<Rightarrow> 'a list \<Rightarrow> int \<Rightarrow> 'a list list \<Rightarrow> 'a list list option"
where
  "batches_loop concurrency levelNodes i batches =
     (if i < int (length levelNodes)
      then batches_loop concurrency levelNodes (i + concurrency)
             (batches @ [js_slice levelNodes i (i + concurrency)])
      else Some batches)"

declare batches_loop.simps [code]

definition make_batches :: "int \<Rightarrow> 'a list \<Rightarrow> 'a list list option" where
  "make_batches concurrency levelNodes = batches_loop concurrency levelNodes 0 []"

text \<open>
  The pipeline of one node, \<open>fetchIssue\<close> followed by \<open>executeIssue\<close>, as the scheduler
  sees it: its promise is fulfilled, is rejected, or never settles.
\<close>

datatype settlement = Fulfilled | Rejected | Pending

text \<open>\<open>Promise.all\<close>: rejected as soon as one promise is, fulfilled when all are.\<close>

definition promise_all :: "settlement list \<Rightarrow> settlement" where
  "promise_all ps =
     (if Rejected \<in> set ps then Rejected else if Pending \<in> set ps then Pending else Fulfilled)"

text \<open>
  The run of \<open>executeDAG\<close>: the chunks whose nodes began execution, in order, and how the
  call ends. \<open>batch.map\<close> starts every node of a chunk; the \<open>await\<close> lets the loop go on
  only when \<open>Promise.all\<close> is fulfilled.
\<close>

datatype run_end = Completed | Failed | Never_returns

fun run_batches :: "(DAGNode \<Rightarrow> settlement) \<Rightarrow> DAGNode list list \<Rightarrow> DAGNode list list \<times> run_end" where
  "run_batches pipeline [] = ([], Completed)"
| "run_batches pipeline (batch # batches) =
     (case promise_all (map pipeline batch) of
        Fulfilled \<Rightarrow> (let (started, e) = run_batches pipeline batches in (batch # started, e))
      | Rejected \<Rightarrow> ([batch], Failed)
      | Pending \<Rightarrow> ([batch], Never_returns))"

fun run_levels ::
  "(DAGNode \<Rightarrow> settlement) \<Rightarrow> int \<Rightarrow> (nat \<times> DAGNode list) list \<Rightarrow> nat list \<Rightarrow>
     DAGNode list list \<times> run_end"
where
  "run_levels pipeline concurrency levels [] = ([], Completed)"
| "run_levels pipeline concurrency levels (l # ls) =
     (let levelNodes = levels_get levels l in
      if levelNodes = [] then run_levels pipeline concurrency levels ls
      else
        case make_batches concurrency levelNodes of
          None \<Rightarrow> ([], Never_returns)
        | Some batches \<Rightarrow>
            (case run_batches pipeline batches of
               (started, Completed) \<Rightarrow>
                 (let (started', e) = run_levels pipeline concurrency levels ls
                  in (started @ started', e))
             | (started, e) \<Rightarrow> (started, e)))"

definition executeDAG ::
  "DAGNode list \<Rightarrow> int \<Rightarrow> (DAGNode \<Rightarrow> settlement) \<Rightarrow> DAGNode list list \<times> run_end"
where
  "executeDAG dag concurrency pipeline =
     (let levels = group_levels dag
      in run_levels pipeline concurrency levels (level_range levels))"


subsection \<open>Grouping by level\<close>

lemma map_of_map_set: "map_of (map_set k v m) = (map_of m)(k \<mapsto> v)"
  by (induction m) (auto simp: fun_eq_iff)

lemma keys_map_set: "fst ` set (map_set k v m) = insert k (fst ` set m)"
proof (induction m)
  case Nil
  then show ?case by simp
next
  case (Cons p m)
  obtain k' v' where p: "p = (k', v')" by (cases p)
  show ?case
  proof (cases "k = k'")
    case True
    then show ?thesis by (simp add: p)
  next
    case False
    then show ?thesis using Cons by (simp add: p insert_commute)
  qed
qed

lemma map_set_not_Nil [simp]: "map_set k v m \<noteq> []"
  by (cases m) (auto split: if_splits)

lemma levels_get_map_set:
  "levels_get (map_set k v m) l = (if l = k then v else levels_get m l)"
  by (simp add: levels_get_def map_of_map_set)

lemma group_levels_foldl:
  "levels_get
     (foldl (\<lambda>levels node. map_set (level node) (levels_get levels (level node) @ [node]) levels)
        m dag) l =
   levels_get m l @ filter (\<lambda>n. level n = l) dag"
  by (induction dag arbitrary: m) (auto simp: levels_get_map_set)

lemma levels_get_group_levels:
  "levels_get (group_levels dag) l = filter (\<lambda>n. level n = l) dag"
  by (simp add: group_levels_def group_levels_foldl) (simp add: levels_get_def)

lemma keys_group_levels_foldl:
  "fst ` set
     (foldl (\<lambda>levels node. map_set (level node) (levels_get levels (level node) @ [node]) levels)
        m dag) =
   fst ` set m \<union> level ` set dag"
  by (induction dag arbitrary: m) (auto simp: keys_map_set)

lemma keys_group_levels: "fst ` set (group_levels dag) = level ` set dag"
  by (simp add: group_levels_def keys_group_levels_foldl)

lemma group_levels_Nil_iff: "group_levels dag = [] \<longleftrightarrow> dag = []"
proof
  assume "group_levels dag = []"
  then have "level ` set dag = {}" using keys_group_levels [of dag] by simp
  then show "dag = []" by simp
next
  assume "dag = []"
  then show "group_levels dag = []" by (simp add: group_levels_def)
qed

lemma level_range_group_levels:
  "level_range (group_levels dag) =
     (if dag = [] then [] else [0..<Suc (Max (level ` set dag))])"
  by (simp add: level_range_def group_levels_Nil_iff keys_group_levels)

subsection \<open>Chunks\<close>

text \<open>
  The partition of the spec: consecutive chunks of size \<open>n\<close>, the last one possibly
  smaller.
\<close>

fun chunks :: "nat \<Rightarrow> 'a list \<Rightarrow> 'a list list" where
  "chunks n xs = (if n = 0 \<or> xs = [] then [] else take n xs # chunks n (drop n xs))"

declare chunks.simps [simp del]

lemma chunks_Nil [simp]: "chunks n [] = []"
  by (simp add: chunks.simps)

lemma concat_chunks: "0 < n \<Longrightarrow> concat (chunks n xs) = xs"
proof (induction n xs rule: chunks.induct)
  case (1 n xs)
  then show ?case by (cases "xs = []") (simp_all add: chunks.simps [of n xs])
qed

lemma chunks_bounds: "c \<in> set (chunks n xs) \<Longrightarrow> c \<noteq> [] \<and> length c \<le> n \<and> set c \<subseteq> set xs"
proof (induction n xs rule: chunks.induct)
  case (1 n xs)
  show ?case
  proof (cases "n = 0 \<or> xs = []")
    case True
    with 1(2) show ?thesis by (simp add: chunks.simps [of n xs])
  next
    case False
    with 1(2) consider "c = take n xs" | "c \<in> set (chunks n (drop n xs))"
      by (auto simp: chunks.simps [of n xs])
    then show ?thesis
    proof cases
      case 1
      with False show ?thesis by (auto dest: in_set_takeD)
    next
      case 2
      with 1(1) [OF False] show ?thesis by (auto dest: in_set_dropD)
    qed
  qed
qed

lemma chunks_full: "Suc i < length (chunks n xs) \<Longrightarrow> length (chunks n xs ! i) = n"
proof (induction n xs arbitrary: i rule: chunks.induct)
  case (1 n xs)
  show ?case
  proof (cases "n = 0 \<or> xs = []")
    case True
    with 1(2) show ?thesis by (simp add: chunks.simps [of n xs])
  next
    case False
    then have eq: "chunks n xs = take n xs # chunks n (drop n xs)"
      by (simp add: chunks.simps [of n xs])
    show ?thesis
    proof (cases i)
      case 0
      with 1(2) eq have "chunks n (drop n xs) \<noteq> []" by auto
      then have "drop n xs \<noteq> []" by auto
      then have "n < length xs" by simp
      with 0 eq show ?thesis by simp
    next
      case (Suc j)
      with 1(2) eq have "Suc j < length (chunks n (drop n xs))" by simp
      from 1(1) [OF False this] Suc eq show ?thesis by simp
    qed
  qed
qed

lemma js_slice_chunk:
  assumes "0 \<le> i" "0 < k"
  shows "js_slice xs i (i + k) = take (nat k) (drop (nat i) xs)"
proof -
  have "nat (min (i + k) (int (length xs)) - min i (int (length xs))) \<ge> length (drop (nat i) xs) \<or>
        nat (min (i + k) (int (length xs)) - min i (int (length xs))) = nat k"
    using assms by auto
  then show ?thesis
    using assms by (auto simp: js_slice_def Let_def min_def)
qed


lemma batches_loop_chunks:
  assumes "0 < k"
  shows "batches_loop k xs (int i) acc = Some (acc @ chunks (nat k) (drop i xs))"
proof (induction "length xs - i" arbitrary: i acc rule: less_induct)
  case less
  show ?case
  proof (cases "i < length xs")
    case True
    let ?c = "take (nat k) (drop i xs)"
    have sl: "js_slice xs (int i) (int i + k) = ?c"
      using js_slice_chunk [of "int i" k xs] assms by simp
    have next_i: "int i + k = int (i + nat k)" using assms by simp
    have "length xs - (i + nat k) < length xs - i" using True assms by simp
    from less [OF this]
    have ih: "batches_loop k xs (int (i + nat k)) (acc @ [?c]) =
          Some ((acc @ [?c]) @ chunks (nat k) (drop (i + nat k) xs))" .
    have ch: "chunks (nat k) (drop i xs) = ?c # chunks (nat k) (drop (i + nat k) xs)"
      using True assms by (simp add: chunks.simps [of "nat k" "drop i xs"] add.commute)
    have "batches_loop k xs (int i) acc =
          batches_loop k xs (int i + k) (acc @ [js_slice xs (int i) (int i + k)])"
      using True by (subst batches_loop.simps) simp
    also have "\<dots> = batches_loop k xs (int (i + nat k)) (acc @ [?c])"
      by (simp only: sl) (simp only: next_i)
    also note ih
    finally show ?thesis by (simp only: ch append_assoc append_Cons append_Nil)
  next
    case False
    then show ?thesis by (subst batches_loop.simps) simp
  qed
qed

lemma make_batches_chunks: "0 < k \<Longrightarrow> make_batches k xs = Some (chunks (nat k) xs)"
  using batches_loop_chunks [of k xs 0 "[]"] by (simp add: make_batches_def)

lemma batches_loop_SomeD:
  assumes "batches_loop k xs i acc = Some y"
  shows "\<not> (k \<le> 0 \<and> i < int (length xs))"
  using assms
proof (rule batches_loop.raw_induct [rotated])
  fix loop :: "int \<Rightarrow> 'a list \<Rightarrow> int \<Rightarrow> 'a list list \<Rightarrow> 'a list list option"
    and k xs i acc y
  assume ih: "\<And>k xs i acc y. loop k xs i acc = Some y \<Longrightarrow> \<not> (k \<le> 0 \<and> i < int (length xs))"
    and eq: "(if i < int (length xs) then loop k xs (i + k) (acc @ [js_slice xs i (i + k)])
             else Some acc) = Some y"
  show "\<not> (k \<le> 0 \<and> i < int (length xs))"
  proof
    assume a: "k \<le> 0 \<and> i < int (length xs)"
    with eq have "loop k xs (i + k) (acc @ [js_slice xs i (i + k)]) = Some y" by simp
    then have "\<not> (k \<le> 0 \<and> i + k < int (length xs))" by (rule ih)
    with a show False by simp
  qed
qed

lemma make_batches_diverges: "k \<le> 0 \<Longrightarrow> xs \<noteq> [] \<Longrightarrow> make_batches k xs = None"
  unfolding make_batches_def using batches_loop_SomeD [of k xs 0 "[]"] by (cases "batches_loop k xs 0 []") auto


subsection \<open>Runs of the scheduler\<close>

text \<open>The chunks that a run starts when no pipeline fails or hangs.\<close>

definition schedule :: "DAGNode list \<Rightarrow> int \<Rightarrow> DAGNode list list" where
  "schedule dag concurrency = fst (executeDAG dag concurrency (\<lambda>_. Fulfilled))"

text \<open>A chunk with a rejected pipeline is the last chunk started, and the run fails.\<close>

definition stops_at :: "(DAGNode \<Rightarrow> settlement) \<Rightarrow> DAGNode list list \<Rightarrow> run_end \<Rightarrow> bool" where
  "stops_at pipeline started e \<longleftrightarrow>
     (\<forall>i<length started. (\<exists>n\<in>set (started ! i). pipeline n = Rejected) \<longrightarrow>
        Suc i = length started \<and> e = Failed)"

lemma promise_all_Fulfilled [simp]: "promise_all (map (\<lambda>_. Fulfilled) b) = Fulfilled"
  by (auto simp: promise_all_def)

lemma run_batches_Fulfilled: "run_batches (\<lambda>_. Fulfilled) bs = (bs, Completed)"
  by (induction bs) auto

lemma promise_all_cases:
  "promise_all (map pl b) = Fulfilled \<Longrightarrow> \<forall>n\<in>set b. pl n = Fulfilled"
  "promise_all (map pl b) = Pending \<Longrightarrow> \<forall>n\<in>set b. pl n \<noteq> Rejected"
  "promise_all (map pl b) = Rejected \<Longrightarrow> \<exists>n\<in>set b. pl n = Rejected"
proof -
  show "promise_all (map pl b) = Fulfilled \<Longrightarrow> \<forall>n\<in>set b. pl n = Fulfilled"
  proof
    fix n assume a: "promise_all (map pl b) = Fulfilled" "n \<in> set b"
    then have "pl n \<in> set (map pl b)" by simp
    with a(1) show "pl n = Fulfilled"
      by (cases "pl n") (auto simp: promise_all_def split: if_splits)
  qed
  show "promise_all (map pl b) = Pending \<Longrightarrow> \<forall>n\<in>set b. pl n \<noteq> Rejected"
  proof
    fix n assume a: "promise_all (map pl b) = Pending" "n \<in> set b"
    then have "pl n \<in> set (map pl b)" by simp
    with a(1) show "pl n \<noteq> Rejected"
      by (auto simp: promise_all_def split: if_splits)
  qed
  show "promise_all (map pl b) = Rejected \<Longrightarrow> \<exists>n\<in>set b. pl n = Rejected"
    by (auto simp: promise_all_def image_iff split: if_splits) metis
qed

lemma stops_at_Nil [simp]: "stops_at pl [] e"
  by (simp add: stops_at_def)

lemma stops_at_single:
  "(\<exists>n\<in>set b. pl n = Rejected) \<longrightarrow> e = Failed \<Longrightarrow> stops_at pl [b] e"
  by (simp add: stops_at_def)

lemma stops_at_Cons:
  assumes "\<forall>n\<in>set b. pl n \<noteq> Rejected" "stops_at pl st e"
  shows "stops_at pl (b # st) e"
  unfolding stops_at_def
proof (intro allI impI)
  fix i assume i: "i < length (b # st)" and r: "\<exists>n\<in>set ((b # st) ! i). pl n = Rejected"
  show "Suc i = length (b # st) \<and> e = Failed"
  proof (cases i)
    case 0
    with r assms(1) show ?thesis by auto
  next
    case (Suc j)
    with i r assms(2) show ?thesis by (auto simp: stops_at_def)
  qed
qed

lemma stops_at_append:
  assumes "\<forall>b\<in>set st. \<forall>n\<in>set b. pl n \<noteq> Rejected" "stops_at pl st' e"
  shows "stops_at pl (st @ st') e"
  using assms by (induction st) (auto intro: stops_at_Cons)

lemma run_batches_run:
  "run_batches pl bs = (st, e) \<Longrightarrow>
     prefix st bs \<and> stops_at pl st e \<and>
     (e = Completed \<longrightarrow> st = bs \<and> (\<forall>b\<in>set bs. \<forall>n\<in>set b. pl n \<noteq> Rejected))"
proof (induction bs arbitrary: st e)
  case Nil
  then show ?case by simp
next
  case (Cons b bs)
  show ?case
  proof (cases "promise_all (map pl b)")
    case Fulfilled
    obtain st' e' where r: "run_batches pl bs = (st', e')" by (cases "run_batches pl bs")
    with Cons.prems Fulfilled have st: "st = b # st'" and e: "e = e'" by auto
    from promise_all_cases(1) [OF Fulfilled] have nb: "\<forall>n\<in>set b. pl n \<noteq> Rejected" by auto
    from Cons.IH [OF r] nb show ?thesis
      by (auto simp: st e intro: stops_at_Cons)
  next
    case Rejected
    with Cons.prems have "st = [b]" "e = Failed" by auto
    then show ?thesis by (simp add: stops_at_single)
  next
    case Pending
    with Cons.prems have "st = [b]" "e = Never_returns" by auto
    then show ?thesis using promise_all_cases(2) [OF Pending] by (auto intro: stops_at_single)
  qed
qed

lemma run_levels_run:
  "run_levels pl k levels ls = (st, e) \<Longrightarrow>
     prefix st (fst (run_levels (\<lambda>_. Fulfilled) k levels ls)) \<and> stops_at pl st e"
proof (induction ls arbitrary: st e)
  case Nil
  then show ?case by simp
next
  case (Cons l ls)
  show ?case
  proof (cases "levels_get levels l = []")
    case True
    with Cons show ?thesis by simp
  next
    case ne: False
    show ?thesis
    proof (cases "make_batches k (levels_get levels l)")
      case None
      with ne Cons.prems show ?thesis by simp
    next
      case (Some bs)
      obtain st1 e1 where r1: "run_batches pl bs = (st1, e1)" by (cases "run_batches pl bs")
      obtain full rest where
        full: "run_levels (\<lambda>_. Fulfilled) k levels ls = (full, rest)"
        by (cases "run_levels (\<lambda>_. Fulfilled) k levels ls")
      have sched: "fst (run_levels (\<lambda>_. Fulfilled) k levels (l # ls)) = bs @ full"
        using ne Some full by (simp add: run_batches_Fulfilled)
      note b1 = run_batches_run [OF r1]
      show ?thesis
      proof (cases "e1 = Completed")
        case True
        obtain st2 e2 where r2: "run_levels pl k levels ls = (st2, e2)"
          by (cases "run_levels pl k levels ls")
        with Cons.prems ne Some r1 True have st: "st = st1 @ st2" and e: "e = e2" by auto
        from Cons.IH [OF r2] full have "prefix st2 full" "stops_at pl st2 e2" by auto
        moreover from b1 True have "st1 = bs" "\<forall>b\<in>set bs. \<forall>n\<in>set b. pl n \<noteq> Rejected" by auto
        ultimately show ?thesis
          unfolding sched st e by (auto intro: stops_at_append)
      next
        case False
        with Cons.prems ne Some r1 have "st = st1" "e = e1"
          by (auto split: run_end.splits)
        with b1 show ?thesis unfolding sched by (auto intro: prefix_prefix)
      qed
    qed
  qed
qed

lemma run_levels_Fulfilled:
  assumes "0 < k"
  shows "run_levels (\<lambda>_. Fulfilled) k levels ls =
           (concat (map (\<lambda>l. chunks (nat k) (levels_get levels l)) ls), Completed)"
proof (induction ls)
  case Nil
  then show ?case by simp
next
  case (Cons l ls)
  show ?case
  proof (cases "levels_get levels l = []")
    case True
    with Cons show ?thesis by simp
  next
    case False
    with Cons show ?thesis
      by (simp add: make_batches_chunks [OF assms] run_batches_Fulfilled)
  qed
qed


lemma executeDAG_Fulfilled:
  assumes "0 < k"
  shows "executeDAG dag k (\<lambda>_. Fulfilled) =
           (concat (map (\<lambda>l. chunks (nat k) (filter (\<lambda>n. level n = l) dag))
                      (level_range (group_levels dag))), Completed)"
  by (simp add: executeDAG_def Let_def run_levels_Fulfilled [OF assms] levels_get_group_levels)

lemma schedule_chunks:
  assumes "0 < k"
  shows "schedule dag k =
           concat (map (\<lambda>l. chunks (nat k) (filter (\<lambda>n. level n = l) dag))
                     (level_range (group_levels dag)))"
  by (simp add: schedule_def executeDAG_Fulfilled [OF assms])

lemma executeDAG_run:
  assumes "executeDAG dag k pl = (started, e)"
  shows "prefix started (schedule dag k)" and "stops_at pl started e"
  using run_levels_run [of pl k "group_levels dag" "level_range (group_levels dag)" started e] assms
  by (simp_all add: executeDAG_def schedule_def Let_def)

lemma schedule_bounds:
  assumes "0 < k" "b \<in> set (schedule dag k)"
  shows "b \<noteq> [] \<and> int (length b) \<le> k"
proof -
  from assms obtain l where "b \<in> set (chunks (nat k) (filter (\<lambda>n. level n = l) dag))"
    by (auto simp: schedule_chunks)
  from chunks_bounds [OF this] assms(1) show ?thesis by auto
qed

text \<open>
  The chunks of a run are started one after the other: when a chunk starts, every
  pipeline of every chunk before it is fulfilled.
\<close>

definition all_fulfilled :: "(DAGNode \<Rightarrow> settlement) \<Rightarrow> DAGNode list \<Rightarrow> bool" where
  "all_fulfilled pipeline b \<longleftrightarrow> (\<forall>n\<in>set b. pipeline n = Fulfilled)"

definition awaited :: "(DAGNode \<Rightarrow> settlement) \<Rightarrow> DAGNode list list \<Rightarrow> run_end \<Rightarrow> bool" where
  "awaited pipeline started e \<longleftrightarrow>
     (\<forall>b\<in>set (butlast started). all_fulfilled pipeline b) \<and>
     (e = Completed \<longrightarrow> (\<forall>b\<in>set started. all_fulfilled pipeline b))"

lemma awaited_Cons:
  assumes "all_fulfilled pl b" "awaited pl st e"
  shows "awaited pl (b # st) e"
  using assms by (cases st) (auto simp: awaited_def)

lemma awaited_append:
  assumes "\<forall>b\<in>set st1. all_fulfilled pl b" "awaited pl st2 e"
  shows "awaited pl (st1 @ st2) e"
  using assms by (induction st1) (auto intro: awaited_Cons)

lemma run_batches_awaited:
  "run_batches pl bs = (st, e) \<Longrightarrow> awaited pl st e"
proof (induction bs arbitrary: st e)
  case Nil
  then show ?case by (simp add: awaited_def)
next
  case (Cons b bs)
  show ?case
  proof (cases "promise_all (map pl b)")
    case Fulfilled
    obtain st' e' where r: "run_batches pl bs = (st', e')" by (cases "run_batches pl bs")
    with Cons.prems Fulfilled have st: "st = b # st'" and e: "e = e'" by auto
    from promise_all_cases(1) [OF Fulfilled] have "all_fulfilled pl b"
      by (simp add: all_fulfilled_def)
    with Cons.IH [OF r] show ?thesis unfolding st e by (intro awaited_Cons)
  next
    case Rejected
    with Cons.prems have "st = [b]" "e = Failed" by auto
    then show ?thesis by (simp add: awaited_def)
  next
    case Pending
    with Cons.prems have "st = [b]" "e = Never_returns" by auto
    then show ?thesis by (simp add: awaited_def)
  qed
qed

lemma run_levels_awaited:
  "run_levels pl k levels ls = (st, e) \<Longrightarrow> awaited pl st e"
proof (induction ls arbitrary: st e)
  case Nil
  then show ?case by (simp add: awaited_def)
next
  case (Cons l ls)
  show ?case
  proof (cases "levels_get levels l = []")
    case True
    with Cons show ?thesis by simp
  next
    case ne: False
    show ?thesis
    proof (cases "make_batches k (levels_get levels l)")
      case None
      with Cons.prems ne have "st = []" "e = Never_returns" by auto
      then show ?thesis by (simp add: awaited_def)
    next
      case (Some bs)
      obtain st1 e1 where r1: "run_batches pl bs = (st1, e1)" by (cases "run_batches pl bs")
      note a1 = run_batches_awaited [OF r1]
      show ?thesis
      proof (cases "e1 = Completed")
        case True
        obtain st2 e2 where r2: "run_levels pl k levels ls = (st2, e2)"
          by (cases "run_levels pl k levels ls")
        with Cons.prems ne Some r1 True have st: "st = st1 @ st2" and e: "e = e2" by auto
        from a1 True have "\<forall>b\<in>set st1. all_fulfilled pl b" by (simp add: awaited_def)
        with Cons.IH [OF r2] show ?thesis unfolding st e by (intro awaited_append)
      next
        case False
        with Cons.prems ne Some r1 have "st = st1" "e = e1"
          by (auto split: run_end.splits)
        with a1 show ?thesis by simp
      qed
    qed
  qed
qed

lemma executeDAG_awaited:
  assumes "executeDAG dag k pl = (started, e)"
  shows "awaited pl started e"
  using run_levels_awaited [of pl k "group_levels dag" "level_range (group_levels dag)" started e]
    assms
  by (simp add: executeDAG_def Let_def)

lemma awaited_nth:
  assumes "awaited pl started e" "Suc i < length started" "n \<in> set (started ! i)"
  shows "pl n = Fulfilled"
proof -
  from assms(2) have "i < length (butlast started)" by simp
  then have "butlast started ! i \<in> set (butlast started)" by (rule nth_mem)
  moreover have "butlast started ! i = started ! i"
    using \<open>i < length (butlast started)\<close> by (rule nth_butlast)
  ultimately have "all_fulfilled pl (started ! i)" using assms(1) by (simp add: awaited_def)
  with assms(3) show ?thesis by (simp add: all_fulfilled_def)
qed

text \<open>Three independent nodes and a node that depends on the first.\<close>

definition node_E :: DAGNode where
  "node_E = \<lparr>node_id = js ''issue-30'', number = 30, title = js ''Task E'',
     dependencies = [], level = 0\<rparr>"

definition node_F :: DAGNode where
  "node_F = \<lparr>node_id = js ''issue-31'', number = 31, title = js ''Task F'',
     dependencies = [], level = 0\<rparr>"

lemmas executeDAG_eval = executeDAG_def group_levels_def levels_get_def level_range_def
  make_batches_chunks chunks.simps promise_all_def
  node_A_def node_B_def node_E_def node_F_def js_def

text \<open>The pipeline of node E never settles; and a limit of zero.\<close>

definition hangs_E :: "DAGNode \<Rightarrow> settlement" where
  "hangs_E n = (if node_id n = js ''issue-30'' then Pending else Fulfilled)"

lemma executeDAG_zero:
  "executeDAG [node_A, node_E, node_F] 0 (\<lambda>_. Fulfilled) = ([], Never_returns)"
proof -
  have "make_batches 0 [node_A, node_E, node_F] = None"
    by (rule make_batches_diverges) simp_all
  then show ?thesis
    by (simp add: executeDAG_def group_levels_def levels_get_def level_range_def
        node_A_def node_E_def node_F_def js_def)
qed

lemma executeDAG_hangs:
  "executeDAG [node_A, node_E, node_F, node_B\<lparr>level := 1\<rparr>] 2 hangs_E =
     ([[node_A, node_E]], Never_returns)"
  by (simp add: executeDAG_eval hangs_E_def)

text \<open>
  Claim C5 (amended). With a concurrency limit \<open>k > 0\<close>, a run in which every pipeline is
  fulfilled goes through the levels \<open>0, 1, ..., maxLevel\<close> in this order and, within a
  level, through the consecutive chunks of its node list: each chunk is non-empty and has
  at most \<open>k\<close> nodes, every chunk but the last one of a level has exactly \<open>k\<close>, and the
  chunks concatenate to the node list. Whatever the pipelines do, the chunks that start
  are an initial part of this schedule, and they are executed one after another: when a
  chunk starts, every pipeline of every chunk started before it is fulfilled, so the
  pipelines that have not settled belong to one chunk and are at most \<open>k\<close>. Three
  independent nodes with \<open>k = 2\<close> give a chunk of two followed by a chunk of one.
\<close>

theorem executeDAG_chunks:
  assumes "0 < k"
  shows
    "executeDAG dag k (\<lambda>_. Fulfilled) =
       (concat (map (\<lambda>l. chunks (nat k) (filter (\<lambda>n. level n = l) dag))
                  (level_range (group_levels dag))), Completed) \<and>
     level_range (group_levels dag) =
       (if dag = [] then [] else [0..<Suc (Max (level ` set dag))]) \<and>
     (\<forall>xs :: DAGNode list.
        concat (chunks (nat k) xs) = xs \<and>
        (\<forall>c\<in>set (chunks (nat k) xs). c \<noteq> [] \<and> int (length c) \<le> k) \<and>
        (\<forall>i. Suc i < length (chunks (nat k) xs) \<longrightarrow>
           int (length (chunks (nat k) xs ! i)) = k)) \<and>
     (\<forall>pipeline started e.
        executeDAG dag k pipeline = (started, e) \<longrightarrow>
          prefix started (schedule dag k) \<and>
          (\<forall>b\<in>set started. b \<noteq> [] \<and> int (length b) \<le> k) \<and>
          (\<forall>i. Suc i < length started \<longrightarrow>
             (\<forall>n\<in>set (started ! i). pipeline n = Fulfilled)) \<and>
          (e = Completed \<longrightarrow> (\<forall>b\<in>set started. \<forall>n\<in>set b. pipeline n = Fulfilled))) \<and>
     executeDAG [node_A, node_E, node_F] 2 (\<lambda>_. Fulfilled) =
       ([[node_A, node_E], [node_F]], Completed)"
proof (intro conjI allI impI ballI)
  show "executeDAG dag k (\<lambda>_. Fulfilled) =
       (concat (map (\<lambda>l. chunks (nat k) (filter (\<lambda>n. level n = l) dag))
                  (level_range (group_levels dag))), Completed)"
    using assms by (rule executeDAG_Fulfilled)
  show "level_range (group_levels dag) =
       (if dag = [] then [] else [0..<Suc (Max (level ` set dag))])"
    by (rule level_range_group_levels)
  show "executeDAG [node_A, node_E, node_F] 2 (\<lambda>_. Fulfilled) =
       ([[node_A, node_E], [node_F]], Completed)"
    by (simp add: executeDAG_eval)
next
  fix xs :: "DAGNode list"
  show "concat (chunks (nat k) xs) = xs" using assms by (simp add: concat_chunks)
next
  fix xs :: "DAGNode list" and c
  assume "c \<in> set (chunks (nat k) xs)"
  from chunks_bounds [OF this] assms show "c \<noteq> []" and "int (length c) \<le> k" by auto
next
  fix xs :: "DAGNode list" and i
  assume "Suc i < length (chunks (nat k) xs)"
  from chunks_full [OF this] assms show "int (length (chunks (nat k) xs ! i)) = k" by simp
next
  fix pipeline started e
  assume r: "executeDAG dag k pipeline = (started, e)"
  show p: "prefix started (schedule dag k)" using r by (rule executeDAG_run)
  fix b assume "b \<in> set started"
  with p have "b \<in> set (schedule dag k)" using set_mono_prefix by blast
  from schedule_bounds [OF assms this] show "b \<noteq> []" and "int (length b) \<le> k" by auto
next
  fix pipeline started e i n
  assume r: "executeDAG dag k pipeline = (started, e)"
    and i: "Suc i < length started" and n: "n \<in> set (started ! i)"
  from executeDAG_awaited [OF r] i n show "pipeline n = Fulfilled" by (rule awaited_nth)
next
  fix pipeline started e b n
  assume r: "executeDAG dag k pipeline = (started, e)"
    and c: "e = Completed" and b: "b \<in> set started" and n: "n \<in> set b"
  from executeDAG_awaited [OF r] c b have "all_fulfilled pipeline b" by (simp add: awaited_def)
  with n show "pipeline n = Fulfilled" by (simp add: all_fulfilled_def)
qed

theorem executeDAG_chunks_witness:
  "executeDAG [node_A, node_E, node_F, node_B\<lparr>level := 1\<rparr>] 2 (\<lambda>_. Fulfilled) =
     ([[node_A, node_E], [node_F], [node_B\<lparr>level := 1\<rparr>]], Completed) \<and>
   level_range (group_levels [node_A, node_E, node_F, node_B\<lparr>level := 1\<rparr>]) = [0, 1] \<and>
   chunks 2 [node_A, node_E, node_F] = [[node_A, node_E], [node_F]] \<and>
   executeDAG [node_A, node_E, node_F, node_B\<lparr>level := 1\<rparr>] 2 hangs_E =
     ([[node_A, node_E]], Never_returns) \<and>
   prefix [[node_A, node_E]] (schedule [node_A, node_E, node_F, node_B\<lparr>level := 1\<rparr>] 2)"
proof -
  let ?dag = "[node_A, node_E, node_F, node_B\<lparr>level := 1\<rparr>]"
  have k: "(0::int) < 2" by simp
  have 1: "level_range (group_levels ?dag) = [0, 1]"
    using executeDAG_chunks [OF k, of ?dag]
    by (simp add: node_A_def node_B_def node_E_def node_F_def)
  have 2: "chunks 2 [node_A, node_E, node_F] = [[node_A, node_E], [node_F]]"
    by (simp add: chunks.simps)
  have "executeDAG ?dag 2 (\<lambda>_. Fulfilled) =
          (concat (map (\<lambda>l. chunks (nat 2) (filter (\<lambda>n. level n = l) ?dag))
             (level_range (group_levels ?dag))), Completed)"
    using executeDAG_chunks [OF k, of ?dag] by blast
  also have "\<dots> = ([[node_A, node_E], [node_F], [node_B\<lparr>level := 1\<rparr>]], Completed)"
    unfolding 1 by (simp add: chunks.simps node_A_def node_B_def node_E_def node_F_def)
  finally have 3: "executeDAG ?dag 2 (\<lambda>_. Fulfilled) =
     ([[node_A, node_E], [node_F], [node_B\<lparr>level := 1\<rparr>]], Completed)" .
  note 4 = executeDAG_hangs
  from executeDAG_chunks [OF k, of ?dag] 4
  have 5: "prefix [[node_A, node_E]] (schedule ?dag 2)" by blast
  show ?thesis by (rule conjI [OF 3 conjI [OF 1 conjI [OF 2 conjI [OF 4 5]]]])
qed

text \<open>
  The claim as it is written fails for a limit that is not positive: with the limit 0
  the batching loop of the first level never ends, and no node starts.
\<close>

theorem executeDAG_chunks_counterexample:
  "executeDAG [node_A, node_E, node_F] 0 (\<lambda>_. Fulfilled) = ([], Never_returns)"
  by (rule executeDAG_zero)

text \<open>
  Claim C6. The chunks that start are an initial part of the schedule, and when a node
  of a started chunk fails, that chunk is the last one started and the run fails: no
  later chunk of the same level and no chunk of a later level begins.
\<close>

theorem executeDAG_fail_fast:
  assumes "executeDAG dag k pipeline = (started, e)"
  shows "prefix started (schedule dag k) \<and>
         (\<forall>i<length started. (\<exists>n\<in>set (started ! i). pipeline n = Rejected) \<longrightarrow>
            started = take (Suc i) (schedule dag k) \<and> e = Failed)"
proof (intro conjI allI impI)
  show p: "prefix started (schedule dag k)" using assms by (rule executeDAG_run)
  fix i assume i: "i < length started" and r: "\<exists>n\<in>set (started ! i). pipeline n = Rejected"
  from executeDAG_run(2) [OF assms] i r have l: "Suc i = length started" and e: "e = Failed"
    by (auto simp: stops_at_def)
  from p obtain rest where "schedule dag k = started @ rest" by (auto simp: prefix_def)
  then show "started = take (Suc i) (schedule dag k)" using l by simp
  show "e = Failed" by (rule e)
qed

definition fails_E :: "DAGNode \<Rightarrow> settlement" where
  "fails_E n = (if node_id n = js ''issue-30'' then Rejected else Fulfilled)"

theorem executeDAG_fail_fast_witness:
  "executeDAG [node_A, node_E, node_F, node_B\<lparr>level := 1\<rparr>] 2 fails_E =
     ([[node_A, node_E]], Failed) \<and>
   schedule [node_A, node_E, node_F, node_B\<lparr>level := 1\<rparr>] 2 =
     [[node_A, node_E], [node_F], [node_B\<lparr>level := 1\<rparr>]] \<and>
   fails_E node_E = Rejected \<and>
   [[node_A, node_E]] = take 1 (schedule [node_A, node_E, node_F, node_B\<lparr>level := 1\<rparr>] 2)"
proof -
  let ?dag = "[node_A, node_E, node_F, node_B\<lparr>level := 1\<rparr>]"
  have run: "executeDAG ?dag 2 fails_E = ([[node_A, node_E]], Failed)"
    by (simp add: executeDAG_eval fails_E_def)
  have sched: "schedule ?dag 2 = [[node_A, node_E], [node_F], [node_B\<lparr>level := 1\<rparr>]]"
    by (simp add: schedule_def executeDAG_eval)
  have rej: "fails_E node_E = Rejected" by (simp add: fails_E_def node_E_def)
  from executeDAG_fail_fast [OF run] rej
  have "[[node_A, node_E]] = take (Suc 0) (schedule ?dag 2)" by auto
  with run sched rej show ?thesis by simp
qed



section \<open>Double-precision arithmetic\<close>

text \<open>
  The scores are JavaScript numbers. A double is modelled by the rational it denotes, and
  every arithmetic operation of the source by the exact operation followed by \<open>fl\<close>,
  the rounding to the nearest double, a tie going to the even significand. \<open>normalise\<close>
  scales the magnitude into \<open>[2^52, 2^53)\<close>; its bound on the number of steps covers the
  exponents of all normal doubles, so the model is exact where no overflow or underflow
  occurs. Integers below \<open>2^53\<close> are doubles, and integer arithmetic on them is exact.
\<close>

definition round_even :: "rat \<Rightarrow> int" where
  "round_even y =
     (let f = \<lfloor>y\<rfloor>; d = y - of_int f in
      if d < 1/2 then f else if 1/2 < d then f + 1 else if even f then f else f + 1)"

fun normalise :: "nat \<Rightarrow> rat \<Rightarrow> int \<Rightarrow> rat \<times> int" where
  "normalise fuel m e =
     (if fuel = 0 then (m, e)
      else if 9007199254740992 \<le> m then normalise (fuel - 1) (m / 2) (e + 1)
      else if m < 4503599627370496 then normalise (fuel - 1) (m * 2) (e - 1)
      else (m, e))"

declare normalise.simps [simp del]

definition fl :: "rat \<Rightarrow> rat" where
  "fl x =
     (if x = 0 then 0
      else let (m, e) = normalise 1100 \<bar>x\<bar> 0
           in sgn x * of_int (round_even m) * 2 powi e)"

lemma floor_numeral_frac: "\<lfloor>(numeral a :: rat) / numeral b\<rfloor> = numeral a div numeral b"
  by (metis floor_divide_of_int_eq of_int_numeral)

lemmas fl_eval = fl_def normalise.simps round_even_def Let_def floor_numeral_frac

lemma round_even_le: "y \<le> of_int n \<Longrightarrow> round_even y \<le> n"
proof -
  assume a: "y \<le> of_int n"
  then have f: "\<lfloor>y\<rfloor> \<le> n" by (simp add: floor_le_iff)
  show ?thesis
  proof (cases "y = of_int \<lfloor>y\<rfloor>")
    case True
    then show ?thesis using f by (simp add: round_even_def Let_def)
  next
    case False
    then have "of_int \<lfloor>y\<rfloor> < y" using of_int_floor_le [of y] by linarith
    with a have "of_int \<lfloor>y\<rfloor> < (of_int n :: rat)" by linarith
    then have "\<lfloor>y\<rfloor> + 1 \<le> n" by simp
    then show ?thesis using f by (simp add: round_even_def Let_def)
  qed
qed

lemma round_even_ge: "of_int n \<le> y \<Longrightarrow> n \<le> round_even y"
proof -
  assume "of_int n \<le> y"
  then have "n \<le> \<lfloor>y\<rfloor>" by (simp add: le_floor_iff)
  then show ?thesis by (simp add: round_even_def Let_def)
qed

lemma normalise_inv:
  "normalise fuel m e = (m', e') \<Longrightarrow> 0 < m \<Longrightarrow> m' * 2 powi e' = m * 2 powi e \<and> 0 < m'"
proof (induction fuel m e rule: normalise.induct)
  case (1 fuel m e)
  from 1(3) have r:
    "(if fuel = 0 then (m, e)
      else if 9007199254740992 \<le> m then normalise (fuel - 1) (m / 2) (e + 1)
      else if m < 4503599627370496 then normalise (fuel - 1) (m * 2) (e - 1)
      else (m, e)) = (m', e')"
    by (subst (asm) normalise.simps)
  show ?case
  proof (cases "fuel = 0")
    case True
    with r 1(4) show ?thesis by simp
  next
    case f: False
    show ?thesis
    proof (cases "9007199254740992 \<le> m")
      case True
      with f r have "normalise (fuel - 1) (m / 2) (e + 1) = (m', e')"
        by simp
      from 1(1) [OF f True this] 1(4) show ?thesis
        by (simp add: power_int_add)
    next
      case nb: False
      show ?thesis
      proof (cases "m < 4503599627370496")
        case True
        with f nb r have "normalise (fuel - 1) (m * 2) (e - 1) = (m', e')"
          by simp
        from 1(2) [OF f nb True this] 1(4) show ?thesis
          by (simp add: power_int_diff)
      next
        case False
        with f nb r 1(4) show ?thesis by simp
      qed
    qed
  qed
qed

lemma normalise_small:
  "normalise fuel m e = (m', e') \<Longrightarrow> 0 < m \<Longrightarrow> m < 9007199254740992 \<Longrightarrow>
     (4503599627370496 \<le> m' \<and> e' \<le> e) \<or> e' = e - int fuel"
proof (induction fuel m e rule: normalise.induct)
  case (1 fuel m e)
  from 1(3) have eq:
    "(if fuel = 0 then (m, e)
      else if 9007199254740992 \<le> m then normalise (fuel - 1) (m / 2) (e + 1)
      else if m < 4503599627370496 then normalise (fuel - 1) (m * 2) (e - 1)
      else (m, e)) = (m', e')"
    by (subst (asm) normalise.simps)
  show ?case
  proof (cases "fuel = 0")
    case True
    with eq show ?thesis by simp
  next
    case f: False
    have nb: "\<not> 9007199254740992 \<le> m" using 1(5) by simp
    show ?thesis
    proof (cases "m < 4503599627370496")
      case True
      with f nb eq have r: "normalise (fuel - 1) (m * 2) (e - 1) = (m', e')"
        by simp
      have "0 < m * 2" "m * 2 < 9007199254740992" using 1(4) True by simp_all
      from 1(2) [OF f nb True r this] f show ?thesis by auto
    next
      case False
      with f nb eq show ?thesis by simp
    qed
  qed
qed

lemma fl_nonneg: "0 \<le> x \<Longrightarrow> 0 \<le> fl x"
proof (cases "x = 0")
  case True
  then show ?thesis by (simp add: fl_def)
next
  case False
  assume "0 \<le> x"
  with False have x: "0 < x" by simp
  obtain m e where n: "normalise 1100 \<bar>x\<bar> 0 = (m, e)" by (cases "normalise 1100 \<bar>x\<bar> 0")
  from normalise_inv [OF n] x have "0 < m" by simp
  then have "0 \<le> round_even m" using round_even_ge [of 0 m] by simp
  then show ?thesis using x n by (simp add: fl_def)
qed

lemma fl_minus: "fl (- x) = - fl x"
  by (simp add: fl_def split: prod.splits)

lemma fl_nonpos: "x \<le> 0 \<Longrightarrow> fl x \<le> 0"
  using fl_nonneg [of "- x"] by (simp add: fl_minus)

text \<open>Rounding does not cross a multiple of a quarter that is below \<open>2^50\<close>.\<close>

lemma fl_le_quarter:
  assumes "x \<le> of_int k / 4" "0 \<le> k" "k < 4503599627370496"
  shows "fl x \<le> of_int k / 4"
proof (cases "x \<le> 0")
  case True
  then have "fl x \<le> 0" by (rule fl_nonpos)
  also have "0 \<le> (of_int k / 4 :: rat)" using assms(2) by simp
  finally show ?thesis .
next
  case False
  then have x: "0 < x" by simp
  obtain m e where n: "normalise 1100 \<bar>x\<bar> 0 = (m, e)" by (cases "normalise 1100 \<bar>x\<bar> 0")
  have xs: "x < 1125899906842624"
  proof -
    have "(of_int k / 4 :: rat) < 4503599627370496 / 4" using assms(3) by simp
    with assms(1) show ?thesis by simp
  qed
  from normalise_inv [OF n] x have inv: "m * 2 powi e = x" and m0: "0 < m" by simp_all
  have e: "e \<le> - 2"
  proof -
    from normalise_small [OF n] x xs
    consider "4503599627370496 \<le> m" "e \<le> 0" | "e = - 1100" by auto
    then show ?thesis
    proof cases
      case 1
      show ?thesis
      proof (rule ccontr)
        assume "\<not> e \<le> - 2"
        with 1 have "e = 0 \<or> e = - 1" by auto
        then have "(2::rat) powi e \<ge> 1 / 2" by (auto simp: power_int_minus)
        then have "m * (1 / 2) \<le> m * 2 powi e" using m0 by (intro mult_left_mono) simp_all
        with inv 1 xs show False by simp
      qed
    next
      case 2
      then show ?thesis by simp
    qed
  qed
  define j where "j = nat (- e - 2)"
  have ej: "e = - int j - 2" using e by (simp add: j_def)
  have p: "(2::rat) powi e = 1 / (4 * 2 ^ j)"
    unfolding ej by (simp add: power_int_diff power_int_minus field_simps)
  have "m = x * (4 * 2 ^ j)" using inv by (simp add: p field_simps)
  also have "\<dots> \<le> (of_int k / 4) * (4 * 2 ^ j)" using assms(1) by (intro mult_right_mono) simp_all
  also have "\<dots> = of_int (k * 2 ^ j)" by simp
  finally have "round_even m \<le> k * 2 ^ j" by (rule round_even_le)
  then have "(of_int (round_even m) :: rat) \<le> of_int (k * 2 ^ j)" by (simp only: of_int_le_iff)
  then have "of_int (round_even m) * (1 / (4 * 2 ^ j)) \<le> (of_int (k * 2 ^ j) :: rat) * (1 / (4 * 2 ^ j))"
    by (intro mult_right_mono) simp_all
  also have "\<dots> = of_int k / 4" by simp
  finally show ?thesis using x n by (simp add: fl_def p)
qed


section \<open>The review agent\<close>

text \<open>
  What \<open>review\<close> observes of its collaborators. The compiler run succeeds or fails, and a
  failed run shows some number of matches of \<open>/error TS\d+:/g\<close> in its output. The linter
  run fails (or prints no JSON) or yields messages, each with a severity. Of every file,
  read once by the security check and once by the complexity check, the read fails
  (\<open>None\<close>) or gives the numbers of matches of the patterns: the five dangerous patterns,
  and the five branching constructs \<open>if\<close>, \<open>for\<close>, \<open>while\<close>, \<open>case\<close>, \<open>catch\<close>.
\<close>

datatype tsc_run = TscOk | TscFailed nat

datatype eslint_run = EslintFailed | EslintMessages "int list"

record ReviewObservation =
  tsc :: tsc_run
  eslint :: eslint_run
  security_files :: "nat list option list"
  complexity_files :: "nat list option list"

record ReviewDetails =
  typeScript_errors :: nat
  typeScript_score :: int
  eslint_errors :: nat
  eslint_warnings :: nat
  eslint_score :: int
  security_vulnerabilities :: nat
  security_score :: int
  complexity_score :: int

record ReviewResult =
  score :: int
  passed :: bool
  details :: ReviewDetails

text \<open>\<open>Math.round\<close>: the nearest integer, a tie going up.\<close>

definition Math_round :: "rat \<Rightarrow> int" where
  "Math_round x = \<lfloor>x + 1/2\<rfloor>"

text \<open>\<open>checkTypeScript\<close>: the number of errors and the score.\<close>

definition checkTypeScript :: "tsc_run \<Rightarrow> nat \<times> int" where
  "checkTypeScript run =
     (case run of
        TscOk \<Rightarrow> (0, 100)
      | TscFailed matches \<Rightarrow>
          (let errors = (if matches = 0 then 1 else matches)
           in (errors, max 0 (100 - int errors * 10))))"

text \<open>\<open>checkESLint\<close>: the numbers of errors and warnings and the score.\<close>

definition checkESLint :: "eslint_run \<Rightarrow> nat \<times> nat \<times> int" where
  "checkESLint run =
     (case run of
        EslintFailed \<Rightarrow> (0, 0, 100)
      | EslintMessages severities \<Rightarrow>
          (let errors = length (filter (\<lambda>s. s = 2) severities);
               warnings = length (filter (\<lambda>s. s \<noteq> 2) severities)
           in if errors = 0 \<and> warnings = 0 then (0, 0, 100)
              else (errors, warnings, max 0 (100 - int errors * 5 - int warnings * 2))))"

text \<open>\<open>checkSecurity\<close>: the number of matches in the readable files and the score.\<close>

definition checkSecurity :: "nat list option list \<Rightarrow> nat \<times> int" where
  "checkSecurity files =
     (let vulnerabilities =
            sum_list (map (\<lambda>f. case f of None \<Rightarrow> 0 | Some matches \<Rightarrow> sum_list matches) files)
      in if vulnerabilities = 0 then (0, 100)
         else (vulnerabilities, max 0 (100 - int vulnerabilities * 10)))"

text \<open>
  \<open>checkComplexity\<close>. The average and the penalty are computed in double precision; the
  counts are integers.
\<close>

definition averageComplexity :: "nat list option list \<Rightarrow> rat" where
  "averageComplexity files =
     (let readable = concat (map (\<lambda>f. case f of None \<Rightarrow> [] | Some counts \<Rightarrow> [counts]) files);
          totalComplexity = sum_list (map (\<lambda>counts. 1 + sum_list counts) readable);
          fileCount = length readable
      in if 0 < fileCount then fl (of_nat totalComplexity / of_nat fileCount) else 0)"

definition checkComplexity :: "nat list option list \<Rightarrow> int" where
  "checkComplexity files =
     (let avgComplexity = averageComplexity files;
          score =
            (if 10 < avgComplexity then max 0 (fl (100 - fl (fl (avgComplexity - 10) * 10)))
             else 100)
      in Math_round score)"

text \<open>
  The weighted sum \<open>typeScriptScore * 0.3 + eslintScore * 0.3 + securityScore * 0.3 +
  complexityScore * 0.1\<close>, evaluated from left to right in double precision; the literals
  \<open>0.3\<close> and \<open>0.1\<close> are the doubles nearest to them.
\<close>

definition weighted_sum :: "int \<Rightarrow> int \<Rightarrow> int \<Rightarrow> int \<Rightarrow> rat" where
  "weighted_sum typeScriptScore eslintScore securityScore complexityScore =
     fl (fl (fl (fl (of_int typeScriptScore * fl (3/10)) + fl (of_int eslintScore * fl (3/10)))
             + fl (of_int securityScore * fl (3/10)))
         + fl (of_int complexityScore * fl (1/10)))"

definition threshold :: int where
  "threshold = 80"

definition review :: "ReviewObservation \<Rightarrow> ReviewResult" where
  "review request =
     (let (tsErrors, typeScriptScore) = checkTypeScript (tsc request);
          (lintErrors, lintWarnings, eslintScore) = checkESLint (eslint request);
          (vulnerabilities, securityScore) = checkSecurity (security_files request);
          complexityScore = checkComplexity (complexity_files request);
          totalScore =
            Math_round (weighted_sum typeScriptScore eslintScore securityScore complexityScore)
      in \<lparr> score = totalScore,
           passed = (threshold \<le> totalScore),
           details =
             \<lparr> typeScript_errors = tsErrors, typeScript_score = typeScriptScore,
               eslint_errors = lintErrors, eslint_warnings = lintWarnings,
               eslint_score = eslintScore,
               security_vulnerabilities = vulnerabilities, security_score = securityScore,
               complexity_score = complexityScore \<rparr> \<rparr>)"

definition obs80 :: ReviewObservation where
  "obs80 = \<lparr> tsc = TscOk, eslint = EslintMessages [2,2,2,2,2,2,2,2,2,2,2,2,2,1],
     security_files = [Some [0,0,0,0,0]], complexity_files = [Some [2,1,0,0,1]] \<rparr>"

definition obs79 :: ReviewObservation where
  "obs79 = \<lparr> tsc = TscOk, eslint = EslintMessages [2,2,2,2,2,2,2,2,2,2,2,2,2,2],
     security_files = [Some [0,0,0,0,0]], complexity_files = [Some [2,1,0,0,1]] \<rparr>"

lemma fl_three_tenths: "fl (3/10) = 5404319552844595 / 18014398509481984"
  by (simp add: fl_eval)

lemma fl_one_tenth: "fl (1/10) = 3602879701896397 / 36028797018963968"
  by (simp add: fl_eval)

lemma weighted_sum_80: "weighted_sum 100 33 100 100 = 2811231329897677/35184372088832"
  unfolding weighted_sum_def fl_three_tenths fl_one_tenth by (simp add: fl_eval)

lemma weighted_sum_79: "weighted_sum 100 30 100 100 = 79"
  unfolding weighted_sum_def fl_three_tenths fl_one_tenth by (simp add: fl_eval)


subsection \<open>Ranges of the scores\<close>

lemma checkTypeScript_range:
  "0 \<le> snd (checkTypeScript run) \<and> snd (checkTypeScript run) \<le> 100"
  by (cases run) (simp_all add: checkTypeScript_def Let_def)

lemma checkESLint_range:
  "0 \<le> snd (snd (checkESLint run)) \<and> snd (snd (checkESLint run)) \<le> 100"
  by (cases run) (simp_all add: checkESLint_def Let_def)

lemma checkSecurity_range:
  "0 \<le> snd (checkSecurity files) \<and> snd (checkSecurity files) \<le> 100"
  by (simp add: checkSecurity_def Let_def)

lemma Math_round_range:
  assumes "0 \<le> x" "x \<le> 401 / 4"
  shows "0 \<le> Math_round x \<and> Math_round x \<le> 100"
proof -
  have "0 \<le> \<lfloor>x + 1/2\<rfloor>" using assms(1) by simp
  moreover have "x + 1/2 < 101" using assms(2) by simp
  then have "\<lfloor>x + 1/2\<rfloor> < 101" by (simp add: floor_less_iff)
  ultimately show ?thesis by (simp add: Math_round_def)
qed

lemma checkComplexity_range:
  "0 \<le> checkComplexity files \<and> checkComplexity files \<le> 100"
proof -
  define avg where "avg = averageComplexity files"
  define sc where
    "sc = (if 10 < avg then max 0 (fl (100 - fl (fl (avg - 10) * 10))) else 100)"
  have eq: "checkComplexity files = Math_round sc"
    by (simp add: checkComplexity_def Let_def sc_def avg_def)
  have "0 \<le> sc \<and> sc \<le> 100"
  proof (cases "10 < avg")
    case True
    then have "0 \<le> fl (avg - 10)" by (intro fl_nonneg) simp
    then have "0 \<le> fl (fl (avg - 10) * 10)" by (intro fl_nonneg) simp
    then have "100 - fl (fl (avg - 10) * 10) \<le> of_int 400 / 4" by simp
    then have "fl (100 - fl (fl (avg - 10) * 10)) \<le> of_int 400 / 4"
      by (rule fl_le_quarter) simp_all
    with True show ?thesis by (simp add: sc_def)
  next
    case False
    then show ?thesis by (simp add: sc_def)
  qed
  then show ?thesis unfolding eq by (intro Math_round_range) simp_all
qed

lemma weighted_sum_range:
  assumes "0 \<le> a" "a \<le> 100" "0 \<le> b" "b \<le> 100" "0 \<le> c" "c \<le> 100" "0 \<le> d" "d \<le> 100"
  shows "0 \<le> weighted_sum a b c d \<and> weighted_sum a b c d \<le> 401 / 4"
proof -
  have term3: "0 \<le> fl (of_int x * fl (3/10)) \<and> fl (of_int x * fl (3/10)) \<le> 30"
    if "0 \<le> x" "x \<le> 100" for x :: int
  proof
    show "0 \<le> fl (of_int x * fl (3/10))" using that(1) by (intro fl_nonneg) (simp add: fl_three_tenths)
    have "(of_int x :: rat) \<le> 100" using that(2) by simp
    then have "of_int x * (5404319552844595 / 18014398509481984 :: rat) \<le>
               100 * (5404319552844595 / 18014398509481984)"
      by (intro mult_right_mono) simp_all
    then have "of_int x * fl (3/10) \<le> of_int 120 / 4" by (simp add: fl_three_tenths)
    then have "fl (of_int x * fl (3/10)) \<le> of_int 120 / 4" by (rule fl_le_quarter) simp_all
    then show "fl (of_int x * fl (3/10)) \<le> 30" by simp
  qed
  have term1: "0 \<le> fl (of_int d * fl (1/10)) \<and> fl (of_int d * fl (1/10)) \<le> 41 / 4"
  proof
    show "0 \<le> fl (of_int d * fl (1/10))" using assms(7) by (intro fl_nonneg) (simp add: fl_one_tenth)
    have "(of_int d :: rat) \<le> 100" using assms(8) by simp
    then have "of_int d * (3602879701896397 / 36028797018963968 :: rat) \<le>
               100 * (3602879701896397 / 36028797018963968)"
      by (intro mult_right_mono) simp_all
    then have "of_int d * fl (1/10) \<le> of_int 41 / 4" by (simp add: fl_one_tenth)
    then have "fl (of_int d * fl (1/10)) \<le> of_int 41 / 4" by (rule fl_le_quarter) simp_all
    then show "fl (of_int d * fl (1/10)) \<le> 41 / 4" by simp
  qed
  let ?ta = "fl (of_int a * fl (3/10))" and ?tb = "fl (of_int b * fl (3/10))"
  let ?tc = "fl (of_int c * fl (3/10))" and ?td = "fl (of_int d * fl (1/10))"
  note ta = term3 [OF assms(1,2)] and tb = term3 [OF assms(3,4)] and tc = term3 [OF assms(5,6)]
  have s1: "0 \<le> fl (?ta + ?tb) \<and> fl (?ta + ?tb) \<le> 60"
  proof
    show "0 \<le> fl (?ta + ?tb)" using ta tb by (intro fl_nonneg) simp
    have "?ta + ?tb \<le> of_int 240 / 4" using ta tb by simp
    then have "fl (?ta + ?tb) \<le> of_int 240 / 4" by (rule fl_le_quarter) simp_all
    then show "fl (?ta + ?tb) \<le> 60" by simp
  qed
  have s2: "0 \<le> fl (fl (?ta + ?tb) + ?tc) \<and> fl (fl (?ta + ?tb) + ?tc) \<le> 90"
  proof
    show "0 \<le> fl (fl (?ta + ?tb) + ?tc)" using s1 tc by (intro fl_nonneg) simp
    have "fl (?ta + ?tb) + ?tc \<le> of_int 360 / 4" using s1 tc by simp
    then have "fl (fl (?ta + ?tb) + ?tc) \<le> of_int 360 / 4" by (rule fl_le_quarter) simp_all
    then show "fl (fl (?ta + ?tb) + ?tc) \<le> 90" by simp
  qed
  have "0 \<le> fl (fl (fl (?ta + ?tb) + ?tc) + ?td)" using s2 term1 by (intro fl_nonneg) simp
  moreover have "fl (fl (fl (?ta + ?tb) + ?tc) + ?td) \<le> 401 / 4"
  proof -
    have "fl (fl (?ta + ?tb) + ?tc) + ?td \<le> of_int 401 / 4" using s2 term1 by simp
    then have "fl (fl (fl (?ta + ?tb) + ?tc) + ?td) \<le> of_int 401 / 4"
      by (rule fl_le_quarter) simp_all
    then show ?thesis by simp
  qed
  ultimately show ?thesis by (simp add: weighted_sum_def)
qed

lemma review_fields:
  "score (review request) =
     Math_round (weighted_sum (snd (checkTypeScript (tsc request)))
       (snd (snd (checkESLint (eslint request))))
       (snd (checkSecurity (security_files request)))
       (checkComplexity (complexity_files request)))"
  "passed (review request) \<longleftrightarrow> threshold \<le> score (review request)"
  "typeScript_score (details (review request)) = snd (checkTypeScript (tsc request))"
  "eslint_score (details (review request)) = snd (snd (checkESLint (eslint request)))"
  "security_score (details (review request)) = snd (checkSecurity (security_files request))"
  "complexity_score (details (review request)) = checkComplexity (complexity_files request)"
  by (simp_all add: review_def Let_def split: prod.splits)


definition obs_tie :: ReviewObservation where
  "obs_tie = \<lparr> tsc = TscFailed 10,
     eslint = EslintMessages [2,2,2,2,2,2,2,2,2,2,2,2,2,2,2,2,2,1,1,1],
     security_files = [Some [9,0,0,0,0], Some [0,0,0,0,0], Some [0,0,0,0,0], Some [0,0,0,0,0]],
     complexity_files = [Some [19,0,0,0,0], Some [18,0,0,0,0], Some [18,0,0,0,0], Some [18,0,0,0,0]] \<rparr>"

lemmas review_eval = review_def checkTypeScript_def checkESLint_def checkSecurity_def
  checkComplexity_def averageComplexity_def Let_def Math_round_def threshold_def

lemma weighted_sum_tie: "weighted_sum 0 9 10 8 = 7318349394477055 / 1125899906842624"
  unfolding weighted_sum_def fl_three_tenths fl_one_tenth by (simp add: fl_eval)

lemma details_obs_tie:
  "details (review obs_tie) =
     \<lparr> typeScript_errors = 10, typeScript_score = 0, eslint_errors = 17, eslint_warnings = 3,
       eslint_score = 9, security_vulnerabilities = 9, security_score = 10,
       complexity_score = 8 \<rparr>"
  by (simp add: review_eval obs_tie_def) (simp add: fl_eval)

lemma review_score_details:
  "score (review request) =
     Math_round (weighted_sum (typeScript_score (details (review request)))
       (eslint_score (details (review request))) (security_score (details (review request)))
       (complexity_score (details (review request))))"
  by (simp add: review_fields)

lemma review_obs_tie: "score (review obs_tie) = 6"
  by (simp add: review_score_details details_obs_tie weighted_sum_tie Math_round_def floor_numeral_frac)

lemma details_obs80:
  "details (review obs80) =
     \<lparr> typeScript_errors = 0, typeScript_score = 100, eslint_errors = 13, eslint_warnings = 1,
       eslint_score = 33, security_vulnerabilities = 0, security_score = 100,
       complexity_score = 100 \<rparr>"
  by (simp add: review_eval obs80_def) (simp add: fl_eval)

lemma details_obs79:
  "details (review obs79) =
     \<lparr> typeScript_errors = 0, typeScript_score = 100, eslint_errors = 14, eslint_warnings = 0,
       eslint_score = 30, security_vulnerabilities = 0, security_score = 100,
       complexity_score = 100 \<rparr>"
  by (simp add: review_eval obs79_def) (simp add: fl_eval)

lemma review_obs80: "score (review obs80) = 80" "passed (review obs80)"
proof -
  show "score (review obs80) = 80"
    by (simp add: review_score_details details_obs80 weighted_sum_80 Math_round_def floor_numeral_frac)
  then show "passed (review obs80)" by (simp add: review_fields(2) threshold_def)
qed

lemma review_obs79: "score (review obs79) = 79" "\<not> passed (review obs79)"
proof -
  show "score (review obs79) = 79"
    by (simp add: review_score_details details_obs79 weighted_sum_79 Math_round_def floor_numeral_frac)
  then show "\<not> passed (review obs79)" by (simp add: review_fields(2) threshold_def)
qed

text \<open>
  Claim C7. \<open>review\<close> reports \<open>passed\<close> exactly when the total score is at least 80: the
  observation \<open>obs80\<close> scores exactly 80 and passes, \<open>obs79\<close> scores 79 and fails.
\<close>

theorem review_passed_iff:
  "(passed (review request) \<longleftrightarrow> 80 \<le> score (review request)) \<and>
   score (review obs80) = 80 \<and> passed (review obs80) \<and>
   score (review obs79) = 79 \<and> \<not> passed (review obs79)"
  using review_obs80 review_obs79 by (simp add: review_fields(2) threshold_def)

theorem review_passed_iff_witness:
  "passed (review obs80) \<and> 80 \<le> score (review obs80) \<and>
   \<not> passed (review obs79) \<and> \<not> 80 \<le> score (review obs79)"
  using review_passed_iff [of obs80] review_passed_iff [of obs79] by simp

text \<open>The penalised scores of the three checks that count defects.\<close>

definition penalised :: "int \<Rightarrow> int" where
  "penalised penalty = max 0 (100 - penalty)"

text \<open>
  Claim C8 (amended). The overall score is \<open>Math.round\<close> of the weighted sum of the four
  sub-scores, evaluated in double precision from left to right. The TypeScript, ESLint
  and security sub-scores start at 100, lose a fixed penalty per detected defect (10 per
  compiler error, 5 per lint error and 2 per lint warning, 10 per security match) and
  are floored at 0. The complexity sub-score is 100 while the average complexity per
  file is at most 10, and above it the rounded value of 100 less 10 per unit of the
  excess, floored at 0. Every sub-score and the overall score lie in \<open>[0, 100]\<close>.
\<close>

theorem review_score_formula:
  "score (review request) =
     Math_round (weighted_sum (typeScript_score (details (review request)))
       (eslint_score (details (review request))) (security_score (details (review request)))
       (complexity_score (details (review request)))) \<and>
   typeScript_score (details (review request)) =
     penalised (10 * int (typeScript_errors (details (review request)))) \<and>
   eslint_score (details (review request)) =
     penalised (5 * int (eslint_errors (details (review request))) +
                2 * int (eslint_warnings (details (review request)))) \<and>
   security_score (details (review request)) =
     penalised (10 * int (security_vulnerabilities (details (review request)))) \<and>
   complexity_score (details (review request)) =
     Math_round
       (if 10 < averageComplexity (complexity_files request)
        then max 0 (fl (100 - fl (fl (averageComplexity (complexity_files request) - 10) * 10)))
        else 100) \<and>
   (\<forall>s \<in> {typeScript_score (details (review request)), eslint_score (details (review request)),
            security_score (details (review request)),
            complexity_score (details (review request)), score (review request)}.
      0 \<le> s \<and> s \<le> 100)"
proof -
  let ?d = "details (review request)"
  have ts: "typeScript_score ?d = penalised (10 * int (typeScript_errors ?d))"
    by (cases "tsc request")
      (auto simp: review_def checkTypeScript_def Let_def penalised_def mult.commute
         split: prod.splits)
  have es: "eslint_score ?d = penalised (5 * int (eslint_errors ?d) + 2 * int (eslint_warnings ?d))"
    by (cases "eslint request")
      (auto simp: review_def checkESLint_def Let_def penalised_def mult.commute
         split: prod.splits)
  have sec: "security_score ?d = penalised (10 * int (security_vulnerabilities ?d))"
    by (auto simp: review_def checkSecurity_def Let_def penalised_def mult.commute
        split: prod.splits)
  have cx: "complexity_score ?d =
     Math_round
       (if 10 < averageComplexity (complexity_files request)
        then max 0 (fl (100 - fl (fl (averageComplexity (complexity_files request) - 10) * 10)))
        else 100)"
    by (simp add: review_fields(6) checkComplexity_def Let_def)
  have r1: "0 \<le> typeScript_score ?d \<and> typeScript_score ?d \<le> 100"
    unfolding review_fields(3) by (rule checkTypeScript_range)
  have r2: "0 \<le> eslint_score ?d \<and> eslint_score ?d \<le> 100"
    unfolding review_fields(4) by (rule checkESLint_range)
  have r3: "0 \<le> security_score ?d \<and> security_score ?d \<le> 100"
    unfolding review_fields(5) by (rule checkSecurity_range)
  have r4: "0 \<le> complexity_score ?d \<and> complexity_score ?d \<le> 100"
    unfolding review_fields(6) by (rule checkComplexity_range)
  have w: "0 \<le> weighted_sum (typeScript_score ?d) (eslint_score ?d) (security_score ?d)
                 (complexity_score ?d) \<and>
           weighted_sum (typeScript_score ?d) (eslint_score ?d) (security_score ?d)
                 (complexity_score ?d) \<le> 401 / 4"
    using r1 r2 r3 r4 by (intro weighted_sum_range) simp_all
  have r5: "0 \<le> score (review request) \<and> score (review request) \<le> 100"
    unfolding review_score_details using w by (intro Math_round_range) simp_all
  show ?thesis
    using ts es sec cx r1 r2 r3 r4 r5 review_score_details [of request] by simp
qed

lemma checkComplexity_examples:
  "checkComplexity [Some [2,1,0,0,1]] = 100"
  "checkComplexity [Some [11,0,0,0,0]] = 80"
  "checkComplexity [Some [11,0,0,0,0], Some [11,0,0,0,0]] = 80"
  by (simp_all add: review_eval) (simp_all add: fl_eval)

text \<open>
  Read in exact arithmetic the formula gives another score: the double-precision sum of
  \<open>0\<close>, \<open>9 * 0.3\<close>, \<open>10 * 0.3\<close> and \<open>8 * 0.1\<close> lies just below \<open>6.5\<close>. And the
  complexity sub-score is not 100 less a penalty per counted construct: four constructs
  in a file cost nothing, and eleven in one file cost as much as twenty-two in two files.
\<close>

theorem review_score_formula_counterexample:
  "details (review obs_tie) =
     \<lparr> typeScript_errors = 10, typeScript_score = 0, eslint_errors = 17, eslint_warnings = 3,
       eslint_score = 9, security_vulnerabilities = 9, security_score = 10,
       complexity_score = 8 \<rparr> \<and>
   score (review obs_tie) = 6 \<and>
   Math_round (3/10 * 0 + 3/10 * 9 + 3/10 * 10 + 1/10 * 8) = 7 \<and>
   checkComplexity [Some [2,1,0,0,1]] = 100 \<and>
   checkComplexity [Some [11,0,0,0,0]] = 80 \<and>
   checkComplexity [Some [11,0,0,0,0], Some [11,0,0,0,0]] = 80"
  using details_obs_tie review_obs_tie checkComplexity_examples
  by (simp add: Math_round_def floor_numeral_frac)

theorem review_score_formula_witness:
  "score (review obs80) = Math_round (weighted_sum 100 33 100 100) \<and>
   typeScript_score (details (review obs80)) = penalised (10 * 0) \<and>
   eslint_score (details (review obs80)) = penalised (5 * 13 + 2 * 1) \<and>
   0 \<le> score (review obs80) \<and> score (review obs80) \<le> 100"
  using review_score_formula [of obs80] by (simp add: details_obs80)



section \<open>The task executor\<close>

text \<open>
  One block of the execution log. The block is text in the source; the model keeps its
  fields: the issue number and title, the duration in milliseconds, and the quality
  score with the generated files or the error message. The time stamp is left out.
\<close>

datatype log_record =
  Success_record nat jsstring int int "jsstring list"
| Failure_record nat jsstring int jsstring

text \<open>
  What one run of \<open>executeIssue\<close> observes of its collaborators and of the clock. An
  error is identified with its message. \<open>IssueAgent.addLabels\<close> and \<open>writeFiles\<close> throw
  or return. \<open>generateCode\<close> throws (the task-tool path has no \<open>catch\<close>), or returns a
  result that has failed, with an error message or without one, or a result that has
  succeeded, with the file paths. \<open>createPR\<close> catches its errors and returns a result that
  has failed, with the message, or has succeeded, with the number of the pull request;
  \<open>PRAgent.addLabels\<close> catches its errors and returns. The two writes of the log,
  \<open>mkdir\<close> and \<open>appendFile\<close>, throw or return.
\<close>

datatype generation =
  Generation_throws jsstring
| Generation_failed "jsstring option"
| Generated "jsstring list"

record PipelineRun =
  startTime :: int
  endTime :: int
  failTime :: int
  issue_addLabels :: "jsstring option"
  generateCode :: generation
  writeFiles :: "jsstring option"
  review_request :: ReviewObservation
  createPR :: "jsstring + nat option"
  success_log :: "jsstring option"
  failure_log :: "jsstring option"

text \<open>
  The four steps inside the \<open>try\<close> block, up to the log entry: the error thrown, or the
  generated files and the quality score. In a dry run the labels, the files and the pull
  request are skipped.
\<close>

definition pipeline_stages :: "bool \<Rightarrow> PipelineRun \<Rightarrow> jsstring + (jsstring list \<times> int)" where
  "pipeline_stages dryRun run =
     (case (if dryRun then None else issue_addLabels run) of
        Some e \<Rightarrow> Inl e
      | None \<Rightarrow>
     (case generateCode run of
        Generation_throws e \<Rightarrow> Inl e
      | Generation_failed err \<Rightarrow>
          Inl (js ''Code generation failed: '' @
               (case err of None \<Rightarrow> js ''undefined'' | Some msg \<Rightarrow> msg))
      | Generated files \<Rightarrow>
     (case (if dryRun then None else writeFiles run) of
        Some e \<Rightarrow> Inl e
      | None \<Rightarrow>
     (let reviewResult = review (review_request run) in
      if \<not> passed reviewResult
      then Inl (js ''Code review failed - quality threshold not met'')
      else
     (case (if dryRun then Inr None else createPR run) of
        Inl err \<Rightarrow> Inl (js ''PR creation failed: '' @ err)
      | Inr prNumber \<Rightarrow> Inr (files, score reviewResult))))))"

text \<open>
  \<open>executeIssue\<close>: the result, \<open>Inl\<close> the error it throws, and the log afterwards. An
  error of the \<open>try\<close> block, that of writing the success entry included, reaches the
  \<open>catch\<close> block, which writes the failure entry and throws the error again; an error of
  that write leaves the \<open>catch\<close> block in its place.
\<close>

definition executeIssue ::
  "Issue \<Rightarrow> bool \<Rightarrow> PipelineRun \<Rightarrow> log_record list \<Rightarrow> (jsstring + unit) \<times> log_record list"
where
  "executeIssue issue dryRun run entries =
     (let attempt =
        (case pipeline_stages dryRun run of
           Inl e \<Rightarrow> Inl e
         | Inr (files, quality) \<Rightarrow>
             (case success_log run of
                Some e \<Rightarrow> Inl e
              | None \<Rightarrow>
                  Inr (entries @ [Success_record (Issue.number issue) (Issue.title issue)
                                (endTime run - startTime run) quality files])))
      in case attempt of
           Inr entries' \<Rightarrow> (Inr (), entries')
         | Inl e \<Rightarrow>
             (case failure_log run of
                Some e' \<Rightarrow> (Inl e', entries)
              | None \<Rightarrow>
                  (Inl e, entries @ [Failure_record (Issue.number issue) (Issue.title issue)
                                   (failTime run - startTime run) e])))"

text \<open>
  The pipeline of a node in \<open>executeDAG\<close>: \<open>fetchIssue\<close>, which throws or returns the
  issue, and then \<open>executeIssue\<close>; and how the promise of the pipeline settles.
\<close>

definition run_node ::
  "jsstring + Issue \<Rightarrow> bool \<Rightarrow> PipelineRun \<Rightarrow> log_record list \<Rightarrow>
     (jsstring + unit) \<times> log_record list"
where
  "run_node fetched dryRun run entries =
     (case fetched of
        Inl e \<Rightarrow> (Inl e, entries)
      | Inr issue \<Rightarrow> executeIssue issue dryRun run entries)"

definition settles :: "(jsstring + unit) \<times> log_record list \<Rightarrow> settlement" where
  "settles outcome = (case fst outcome of Inl e \<Rightarrow> Rejected | Inr u \<Rightarrow> Fulfilled)"

text \<open>Every step of the pipeline went through.\<close>

definition stages_succeed :: "bool \<Rightarrow> PipelineRun \<Rightarrow> bool" where
  "stages_succeed dryRun run \<longleftrightarrow>
     (dryRun \<or> issue_addLabels run = None) \<and>
     (\<exists>files. generateCode run = Generated files) \<and>
     (dryRun \<or> writeFiles run = None) \<and>
     passed (review (review_request run)) \<and>
     (dryRun \<or> (\<exists>prNumber. createPR run = Inr prNumber))"

lemma pipeline_stages_Inr_iff:
  "(\<exists>r. pipeline_stages dryRun run = Inr r) \<longleftrightarrow> stages_succeed dryRun run"
  by (cases dryRun)
    (auto simp: pipeline_stages_def stages_succeed_def Let_def
       split: option.splits sum.splits generation.splits)

lemma executeIssue_Inl:
  assumes "executeIssue issue dryRun run entries = (Inl e, entries')" "failure_log run = None"
  shows "entries' = entries @ [Failure_record (Issue.number issue) (Issue.title issue)
                         (failTime run - startTime run) e]"
  using assms
  by (auto simp: executeIssue_def Let_def split: sum.splits option.splits prod.splits)

lemma executeIssue_Inr:
  assumes "executeIssue issue dryRun run entries = (Inr u, entries')"
  shows "stages_succeed dryRun run \<and> success_log run = None \<and>
         (\<exists>files. generateCode run = Generated files \<and>
            entries' = entries @ [Success_record (Issue.number issue) (Issue.title issue)
                            (endTime run - startTime run)
                            (score (review (review_request run))) files])"
proof -
  from assms obtain files quality where
    p: "pipeline_stages dryRun run = Inr (files, quality)" and s: "success_log run = None" and
    l: "entries' = entries @ [Success_record (Issue.number issue) (Issue.title issue)
                            (endTime run - startTime run) quality files]"
    by (auto simp: executeIssue_def Let_def split: sum.splits option.splits prod.splits)
  from p have "stages_succeed dryRun run" using pipeline_stages_Inr_iff by blast
  moreover from p have "generateCode run = Generated files"
    "quality = score (review (review_request run))"
    by (auto simp: pipeline_stages_def Let_def
        split: option.splits sum.splits if_splits generation.splits)
  ultimately show ?thesis using s l by simp
qed

lemma executeIssue_stage_errors:
  assumes "failure_log run = None"
  shows "\<not> dryRun \<Longrightarrow> issue_addLabels run = Some e \<Longrightarrow>
           fst (executeIssue issue dryRun run entries) = Inl e"
    and "dryRun \<or> issue_addLabels run = None \<Longrightarrow> generateCode run = Generation_throws e \<Longrightarrow>
           fst (executeIssue issue dryRun run entries) = Inl e"
    and "dryRun \<or> issue_addLabels run = None \<Longrightarrow> generateCode run = Generation_failed (Some err) \<Longrightarrow>
           fst (executeIssue issue dryRun run entries) = Inl (js ''Code generation failed: '' @ err)"
    and "issue_addLabels run = None \<Longrightarrow> generateCode run = Generated files \<Longrightarrow> \<not> dryRun \<Longrightarrow>
           writeFiles run = Some e \<Longrightarrow> fst (executeIssue issue dryRun run entries) = Inl e"
    and "dryRun \<or> issue_addLabels run = None \<Longrightarrow> generateCode run = Generated files \<Longrightarrow>
           dryRun \<or> writeFiles run = None \<Longrightarrow> \<not> passed (review (review_request run)) \<Longrightarrow>
           fst (executeIssue issue dryRun run entries) =
             Inl (js ''Code review failed - quality threshold not met'')"
    and "issue_addLabels run = None \<Longrightarrow> generateCode run = Generated files \<Longrightarrow> \<not> dryRun \<Longrightarrow>
           writeFiles run = None \<Longrightarrow> passed (review (review_request run)) \<Longrightarrow>
           createPR run = Inl err \<Longrightarrow>
           fst (executeIssue issue dryRun run entries) = Inl (js ''PR creation failed: '' @ err)"
  using assms
  by (auto simp: executeIssue_def pipeline_stages_def Let_def split: sum.splits option.splits)

lemma executeIssue_stage_failure:
  assumes "failure_log run = None" "\<not> stages_succeed dryRun run"
  shows "\<exists>e. executeIssue issue dryRun run entries =
           (Inl e, entries @ [Failure_record (Issue.number issue) (Issue.title issue)
                                (failTime run - startTime run) e])"
proof -
  from assms(2) obtain e where "pipeline_stages dryRun run = Inl e"
    using pipeline_stages_Inr_iff [of dryRun run] by (cases "pipeline_stages dryRun run") auto
  then show ?thesis using assms(1) by (simp add: executeIssue_def)
qed

lemma executeDAG_rejected_node:
  assumes "executeDAG dag k pl = (started, e)" "n \<in> set (concat started)" "pl n = Rejected"
  shows "e = Failed"
proof -
  from assms(2) obtain b where "b \<in> set started" "n \<in> set b" by auto
  then obtain i where "i < length started" "n \<in> set (started ! i)"
    by (metis in_set_conv_nth)
  with executeDAG_run(2) [OF assms(1)] assms(3) show ?thesis
    by (auto simp: stops_at_def)
qed

text \<open>Example runs: the generation fails; and on top of that the log cannot be written.\<close>

definition run_generation_fails :: PipelineRun where
  "run_generation_fails =
     \<lparr> startTime = 1000, endTime = 1250, failTime = 1250, issue_addLabels = None,
       generateCode = Generation_failed (Some (js ''overloaded'')), writeFiles = None,
       review_request = obs80,
       createPR = Inr (Some 7), success_log = None, failure_log = None \<rparr>"

definition run_log_unwritable :: PipelineRun where
  "run_log_unwritable = run_generation_fails\<lparr>failure_log := Some (js ''EACCES'')\<rparr>"

text \<open>
  Claim C10 (amended). When the failure entry can be written, every error that
  \<open>executeIssue\<close> throws has been appended to the log before, as a failure record with the
  duration and the message; a run in which a step of the pipeline fails throws such an
  error, with the message of the failing step, so that the promise of the node is
  rejected and the run of the scheduler that started the node fails.
\<close>

theorem executeIssue_failure_logged:
  assumes "failure_log run = None"
  shows
    "(\<forall>e entries'. executeIssue issue dryRun run entries = (Inl e, entries') \<longrightarrow>
        entries' = entries @ [Failure_record (Issue.number issue) (Issue.title issue)
                                (failTime run - startTime run) e]) \<and>
     (\<not> stages_succeed dryRun run \<longrightarrow>
        (\<exists>e. executeIssue issue dryRun run entries =
           (Inl e, entries @ [Failure_record (Issue.number issue) (Issue.title issue)
                                (failTime run - startTime run) e])) \<and>
        settles (run_node (Inr issue) dryRun run entries) = Rejected \<and>
        (\<forall>dag k pipeline started e n.
           executeDAG dag k pipeline = (started, e) \<and> n \<in> set (concat started) \<and>
           pipeline n = settles (run_node (Inr issue) dryRun run entries) \<longrightarrow> e = Failed)) \<and>
     (\<forall>e. \<not> dryRun \<and> issue_addLabels run = Some e \<longrightarrow>
        fst (executeIssue issue dryRun run entries) = Inl e) \<and>
     (\<forall>e. (dryRun \<or> issue_addLabels run = None) \<and> generateCode run = Generation_throws e \<longrightarrow>
        fst (executeIssue issue dryRun run entries) = Inl e) \<and>
     (\<forall>err. (dryRun \<or> issue_addLabels run = None) \<and>
        generateCode run = Generation_failed (Some err) \<longrightarrow>
        fst (executeIssue issue dryRun run entries) =
          Inl (js ''Code generation failed: '' @ err)) \<and>
     (\<forall>e files. issue_addLabels run = None \<and> generateCode run = Generated files \<and> \<not> dryRun \<and>
        writeFiles run = Some e \<longrightarrow> fst (executeIssue issue dryRun run entries) = Inl e) \<and>
     (\<forall>files. (dryRun \<or> issue_addLabels run = None) \<and> generateCode run = Generated files \<and>
        (dryRun \<or> writeFiles run = None) \<and> \<not> passed (review (review_request run)) \<longrightarrow>
        fst (executeIssue issue dryRun run entries) =
          Inl (js ''Code review failed - quality threshold not met'')) \<and>
     (\<forall>err files. issue_addLabels run = None \<and> generateCode run = Generated files \<and> \<not> dryRun \<and>
        writeFiles run = None \<and> passed (review (review_request run)) \<and>
        createPR run = Inl err \<longrightarrow>
        fst (executeIssue issue dryRun run entries) = Inl (js ''PR creation failed: '' @ err))"
proof (intro conjI allI impI)
  fix e entries'
  assume "executeIssue issue dryRun run entries = (Inl e, entries')"
  then show "entries' = entries @ [Failure_record (Issue.number issue) (Issue.title issue)
                                (failTime run - startTime run) e]"
    using assms by (rule executeIssue_Inl)
next
  assume ns: "\<not> stages_succeed dryRun run"
  from executeIssue_stage_failure [OF assms ns]
  show ex: "\<exists>e. executeIssue issue dryRun run entries =
           (Inl e, entries @ [Failure_record (Issue.number issue) (Issue.title issue)
                                (failTime run - startTime run) e])" .
  then show rej: "settles (run_node (Inr issue) dryRun run entries) = Rejected"
    by (auto simp: settles_def run_node_def)
  fix dag k pipeline started e n
  assume "executeDAG dag k pipeline = (started, e) \<and> n \<in> set (concat started) \<and>
           pipeline n = settles (run_node (Inr issue) dryRun run entries)"
  with rej show "e = Failed" using executeDAG_rejected_node by metis
next
  fix e assume "\<not> dryRun \<and> issue_addLabels run = Some e"
  then show "fst (executeIssue issue dryRun run entries) = Inl e"
    using executeIssue_stage_errors(1) [OF assms] by blast
next
  fix e assume "(dryRun \<or> issue_addLabels run = None) \<and> generateCode run = Generation_throws e"
  then show "fst (executeIssue issue dryRun run entries) = Inl e"
    using executeIssue_stage_errors(2) [OF assms] by blast
next
  fix err
  assume "(dryRun \<or> issue_addLabels run = None) \<and> generateCode run = Generation_failed (Some err)"
  then show "fst (executeIssue issue dryRun run entries) =
          Inl (js ''Code generation failed: '' @ err)"
    using executeIssue_stage_errors(3) [OF assms] by blast
next
  fix e files
  assume "issue_addLabels run = None \<and> generateCode run = Generated files \<and> \<not> dryRun \<and>
        writeFiles run = Some e"
  then show "fst (executeIssue issue dryRun run entries) = Inl e"
    using executeIssue_stage_errors(4) [OF assms] by blast
next
  fix files
  assume "(dryRun \<or> issue_addLabels run = None) \<and> generateCode run = Generated files \<and>
        (dryRun \<or> writeFiles run = None) \<and> \<not> passed (review (review_request run))"
  then show "fst (executeIssue issue dryRun run entries) =
          Inl (js ''Code review failed - quality threshold not met'')"
    using executeIssue_stage_errors(5) [OF assms] by blast
next
  fix err files
  assume "issue_addLabels run = None \<and> generateCode run = Generated files \<and> \<not> dryRun \<and>
        writeFiles run = None \<and> passed (review (review_request run)) \<and>
        createPR run = Inl err"
  then show "fst (executeIssue issue dryRun run entries) = Inl (js ''PR creation failed: '' @ err)"
    using executeIssue_stage_errors(6) [OF assms] by blast
qed

theorem executeIssue_failure_logged_witness:
  "failure_log run_generation_fails = None \<and>
   \<not> stages_succeed False run_generation_fails \<and>
   executeIssue task_A False run_generation_fails [] =
     (Inl (js ''Code generation failed: overloaded''),
      [Failure_record 3 (js ''Task A'') 250 (js ''Code generation failed: overloaded'')]) \<and>
   settles (run_node (Inr task_A) False run_generation_fails []) = Rejected"
proof -
  have f: "failure_log run_generation_fails = None"
    by (simp add: run_generation_fails_def)
  have ns: "\<not> stages_succeed False run_generation_fails"
    by (simp add: stages_succeed_def run_generation_fails_def)
  have g: "generateCode run_generation_fails = Generation_failed (Some (js ''overloaded''))"
    and a: "issue_addLabels run_generation_fails = None"
    and t: "failTime run_generation_fails - startTime run_generation_fails = 250"
    by (simp_all add: run_generation_fails_def)
  note th = executeIssue_failure_logged [OF f, of task_A False "[]"]
  from th ns have rej: "settles (run_node (Inr task_A) False run_generation_fails []) = Rejected"
    by blast
  from th g a have m: "fst (executeIssue task_A False run_generation_fails []) =
      Inl (js ''Code generation failed: '' @ js ''overloaded'')"
    by blast
  obtain r entries' where r: "executeIssue task_A False run_generation_fails [] = (r, entries')"
    by (cases "executeIssue task_A False run_generation_fails []")
  with m have r': "r = Inl (js ''Code generation failed: '' @ js ''overloaded'')" by simp
  with th r have "entries' = [] @ [Failure_record (Issue.number task_A) (Issue.title task_A)
      (failTime run_generation_fails - startTime run_generation_fails)
      (js ''Code generation failed: '' @ js ''overloaded'')]"
    by blast
  with r r' t have "executeIssue task_A False run_generation_fails [] =
     (Inl (js ''Code generation failed: overloaded''),
      [Failure_record 3 (js ''Task A'') 250 (js ''Code generation failed: overloaded'')])"
    by (simp add: task_A_def js_def)
  with f ns rej show ?thesis by simp
qed

text \<open>
  The claim as it is written does not hold for every failure of a run. An error of the
  \<open>fetchIssue\<close> call in \<open>executeDAG\<close> rejects the pipeline of the node and leaves the log
  as it was; and when the failure entry cannot be written, the failed generation leaves
  no record and the error thrown is that of the write.
\<close>

theorem executeIssue_failure_logged_counterexample:
  "run_node (Inl (js ''Not Found'')) False run_generation_fails [] = (Inl (js ''Not Found''), []) \<and>
   settles (run_node (Inl (js ''Not Found'')) False run_generation_fails []) = Rejected \<and>
   generateCode run_log_unwritable = Generation_failed (Some (js ''overloaded'')) \<and>
   executeIssue task_A False run_log_unwritable [] = (Inl (js ''EACCES''), [])"
  by (simp add: run_node_def settles_def executeIssue_def pipeline_stages_def
      run_log_unwritable_def run_generation_fails_def)


end
